theory Spec2Isabelle
  imports Complex_Main "HOL-Library.Char_ord" "HOL-Library.List_Lexorder"
    "HOL-Library.Product_Lexorder"
begin

section \<open>Python values\<close>

text \<open>
  A Python float is NaN, an infinity, negative zero, or another finite value; a finite
  value is modelled by the rational number it denotes (every finite double is a
  rational), \<open>Fin 0\<close> being positive zero and \<open>NegZero\<close> the float \<open>-0.0\<close>.
  Strings are byte strings in UTF-8, whose bytewise lexicographic order is the code point
  order Python and pandas sort by.
\<close>

datatype pyfloat = NaN | NInf | Fin rat | NegZero | PInf

text \<open>
  The values the fields \<open>up_count\<close>, \<open>down_count\<close> and \<open>leader\<close> of a snapshot
  row hold: \<open>None\<close> (the column is absent, \<open>r.get\<close> gives \<open>None\<close>), a string, an
  integer of the JSON feed, or a float (a numeric column that holds NaN is a column of
  floats in pandas).
\<close>

datatype pyval = PNone | PStr string | PInt int | PFloat pyfloat

text \<open>\<open>str(n)\<close> of a non-negative integer, and of an integer.\<close>

fun digits :: "nat \<Rightarrow> string" where
  "digits n = (if n < 10 then [''0123456789'' ! n]
               else digits (n div 10) @ [''0123456789'' ! (n mod 10)])"

declare digits.simps [simp del]

definition str_int :: "int \<Rightarrow> string" where
  "str_int i = (if i < 0 then ''-'' @ digits (nat (- i)) else digits (nat i))"

text \<open>
  The format \<open>f"{x:.2f}"\<close> and \<open>f"{x:.4f}"\<close>: the correctly rounded decimal
  with \<open>d\<close> digits after the point (ties to even on the exact value), \<open>d > 0\<close>.
\<close>

definition round_half_even :: "rat \<Rightarrow> int" where
  "round_half_even q =
     (let f = \<lfloor>q\<rfloor>; r = q - of_int f
      in if r < 1 / 2 then f else if 1 / 2 < r then f + 1
         else if even f then f else f + 1)"

definition zfill :: "nat \<Rightarrow> string \<Rightarrow> string" where
  "zfill d s = replicate (d - length s) (CHR ''0'') @ s"

definition fmt_fixed :: "nat \<Rightarrow> pyfloat \<Rightarrow> string" where
  "fmt_fixed d x =
     (case x of
        NaN \<Rightarrow> ''nan''
      | NInf \<Rightarrow> ''-inf''
      | PInf \<Rightarrow> ''inf''
      | NegZero \<Rightarrow> ''-0.'' @ replicate d (CHR ''0'')
      | Fin q \<Rightarrow>
          (let n = nat (round_half_even (\<bar>q\<bar> * 10 ^ d))
           in (if q < 0 then ''-'' else [])
              @ digits (n div 10 ^ d) @ ''.'' @ zfill d (digits (n mod 10 ^ d))))"

text \<open>\<open>s.rstrip(c)\<close> for a single character \<open>c\<close>.\<close>

definition rstrip :: "char \<Rightarrow> string \<Rightarrow> string" where
  "rstrip c s = rev (dropWhile (\<lambda>x. x = c) (rev s))"

text \<open>\<open>sep.join(parts)\<close>.\<close>

fun join :: "string \<Rightarrow> string list \<Rightarrow> string" where
  "join sep [] = []"
| "join sep [x] = x"
| "join sep (x # y # ys) = x @ sep @ join sep (y # ys)"

section \<open>Cell formatting\<close>

text \<open>
  \<open>pct is None or (isinstance(pct, float) and math.isnan(pct))\<close>: the test that a
  float field carries no value.
\<close>

definition none_or_nan :: "pyfloat option \<Rightarrow> bool" where
  "none_or_nan x = (x = None \<or> x = Some NaN)"

definition fmt_rank :: "int option \<Rightarrow> string" where
  "fmt_rank rank = (case rank of None \<Rightarrow> [] | Some k \<Rightarrow> str_int k)"

definition fmt_pct :: "pyfloat option \<Rightarrow> string" where
  "fmt_pct pct = (case pct of None \<Rightarrow> [] | Some NaN \<Rightarrow> [] | Some x \<Rightarrow> fmt_fixed 2 x)"

definition fmt_close :: "pyfloat option \<Rightarrow> string" where
  "fmt_close close =
     (case close of None \<Rightarrow> [] | Some NaN \<Rightarrow> []
      | Some x \<Rightarrow> rstrip (CHR ''.'') (rstrip (CHR ''0'') (fmt_fixed 4 x)))"

text \<open>\<open>fmt_cell\<close> of \<open>bk_fetch_data.py\<close>: the three-field cell.\<close>

definition fmt_cell :: "int option \<Rightarrow> pyfloat option \<Rightarrow> pyfloat option \<Rightarrow> string" where
  "fmt_cell rank pct close =
     (let r = fmt_rank rank; p = fmt_pct pct; c = fmt_close close
      in if r = [] \<and> p = [] \<and> c = [] then []
         else r @ ''|'' @ p @ ''|'' @ c)"

text \<open>
  \<open>str(v)\<close>, \<open>v in (None, "")\<close> and the truth value of \<open>v\<close>. \<open>float_str\<close> stands
  for Python's \<open>str\<close> on a finite float other than negative zero (the shortest
  decimal that reads back as the same double, \<open>5.0\<close> for the float five).
\<close>

fun py_str :: "(rat \<Rightarrow> string) \<Rightarrow> pyval \<Rightarrow> string" where
  "py_str float_str PNone = ''None''"
| "py_str float_str (PStr s) = s"
| "py_str float_str (PInt i) = str_int i"
| "py_str float_str (PFloat NaN) = ''nan''"
| "py_str float_str (PFloat NInf) = ''-inf''"
| "py_str float_str (PFloat PInf) = ''inf''"
| "py_str float_str (PFloat NegZero) = ''-0.0''"
| "py_str float_str (PFloat (Fin q)) = float_str q"

fun in_none_empty :: "pyval \<Rightarrow> bool" where
  "in_none_empty PNone = True"
| "in_none_empty (PStr s) = (s = [])"
| "in_none_empty (PInt i) = False"
| "in_none_empty (PFloat x) = False"

fun truthy :: "pyval \<Rightarrow> bool" where
  "truthy PNone = False"
| "truthy (PStr s) = (s \<noteq> [])"
| "truthy (PInt i) = (i \<noteq> 0)"
| "truthy (PFloat x) = (x \<noteq> Fin 0 \<and> x \<noteq> NegZero)"

definition fmt_count :: "(rat \<Rightarrow> string) \<Rightarrow> pyval \<Rightarrow> string" where
  "fmt_count float_str up = (if in_none_empty up then [] else py_str float_str up)"

definition fmt_leader :: "(rat \<Rightarrow> string) \<Rightarrow> pyval \<Rightarrow> string" where
  "fmt_leader float_str leader = (if truthy leader then py_str float_str leader else [])"

text \<open>\<open>fmt_cell\<close> of \<open>bk_data_ind.py\<close>: the seven-field cell.\<close>

definition fmt_cell_ind ::
  "(rat \<Rightarrow> string) \<Rightarrow> int option \<Rightarrow> pyfloat option \<Rightarrow> pyfloat option
     \<Rightarrow> pyfloat option \<Rightarrow> pyval \<Rightarrow> pyval \<Rightarrow> pyval \<Rightarrow> string" where
  "fmt_cell_ind float_str rank pct close turnover up down leader =
     (let parts = [fmt_rank rank, fmt_pct pct, fmt_close close, fmt_pct turnover,
                   fmt_count float_str up, fmt_count float_str down,
                   fmt_leader float_str leader]
      in if list_all (\<lambda>x. x = []) parts then [] else join ''|'' parts)"

text \<open>
  The reading of "absent" that treats every field alike: \<open>None\<close>, NaN or the empty
  string.
\<close>

definition absent_uniform :: "pyval \<Rightarrow> bool" where
  "absent_uniform v = (v = PNone \<or> v = PFloat NaN \<or> v = PStr [])"

section \<open>Ranking\<close>

text \<open>
  \<open>Series.rank(ascending=False, method="first")\<close> of pandas: the positions are
  sorted by descending value with a stable sort, missing values left out, and the
  position at place \<open>j\<close> of the sorted order gets rank \<open>j + 1\<close>; a missing value
  gets no rank. A value is missing when it is \<open>None\<close> or NaN.
\<close>

definition notna :: "pyfloat option \<Rightarrow> bool" where
  "notna x = (\<not> none_or_nan x)"

fun desc_key :: "pyfloat option \<Rightarrow> int \<times> rat" where
  "desc_key (Some PInf) = (0, 0)"
| "desc_key (Some (Fin q)) = (1, - q)"
| "desc_key (Some NegZero) = (1, 0)"
| "desc_key (Some NInf) = (2, 0)"
| "desc_key (Some NaN) = (3, 0)"
| "desc_key None = (3, 0)"

fun position :: "'a \<Rightarrow> 'a list \<Rightarrow> nat" where
  "position x [] = 0"
| "position x (y # ys) = (if x = y then 0 else Suc (position x ys))"

definition rank_order :: "pyfloat option list \<Rightarrow> nat list" where
  "rank_order xs =
     sort_key (\<lambda>i. desc_key (xs ! i)) (filter (\<lambda>i. notna (xs ! i)) [0..<length xs])"

definition rank_first_desc :: "pyfloat option list \<Rightarrow> nat option list" where
  "rank_first_desc xs =
     map (\<lambda>i. if notna (xs ! i) then Some (Suc (position i (rank_order xs))) else None)
       [0..<length xs]"

text \<open>
  \<open>df.groupby(key)[col].rank(ascending=False, method="first")\<close>: every row is
  ranked among the rows that share its key.
\<close>

definition group_of :: "'k list \<Rightarrow> nat \<Rightarrow> nat list" where
  "group_of keys i = filter (\<lambda>j. keys ! j = keys ! i) [0..<length keys]"

definition group_rank :: "'k list \<Rightarrow> pyfloat option list \<Rightarrow> nat option list" where
  "group_rank keys xs =
     map (\<lambda>i. rank_first_desc (map (\<lambda>j. xs ! j) (group_of keys i))
                 ! position i (group_of keys i))
       [0..<length keys]"

section \<open>Wide tables and snapshots\<close>

text \<open>
  A cell of a wide table is a string or missing (NaN, \<open>None\<close> here). A table is held
  by columns, as pandas holds it: the row labels (\<open>row_key\<close>) and, for every column in
  order, its name and its cells, one for each row label.
\<close>

type_synonym cell = "string option"

record frame =
  index :: "string list"
  cols :: "(string \<times> cell list) list"

definition columns :: "frame \<Rightarrow> string list" where
  "columns W = map fst (cols W)"

text \<open>
  What \<open>pd.read_csv\<close> yields: column names are pairwise different and every column
  has one cell for each row.
\<close>

definition wf_frame :: "frame \<Rightarrow> bool" where
  "wf_frame W \<longleftrightarrow>
     distinct (columns W) \<and> list_all (\<lambda>col. length (snd col) = length (index W)) (cols W)"

text \<open>
  A row of the snapshot \<open>df_today\<close>. The rows of \<open>bk_fetch_data.py\<close> and of the
  per-board mode carry no turnover, counts or leader: \<open>r.get\<close> gives \<open>None\<close> there.
\<close>

record today_row =
  bk_code :: string
  bk_name :: string
  close :: "pyfloat option"
  pct_chg :: "pyfloat option"
  turnover :: "pyfloat option"
  up_count :: pyval
  down_count :: pyval
  leader :: pyval

text \<open>The file \<open>to_csv\<close> writes: its encoding, the label of the index column, the table.\<close>

record csv_file =
  encoding :: string
  index_label :: string
  table :: frame

datatype pd_error = KeyError | ValueError | IndexingError | IndexError | OverflowError

definition row_key :: "today_row \<Rightarrow> string" where
  "row_key r = bk_code r @ ''|'' @ bk_name r"

text \<open>
  The rank column of \<open>patch_today\<close>: the descending rank of \<open>pct_chg\<close> when some
  \<open>pct_chg\<close> is present, \<open>pd.NA\<close> in every row otherwise;
  \<open>int(r["rank"]) if pd.notna(r["rank"]) else None\<close> turns it into an optional integer.
\<close>

definition today_ranks :: "today_row list \<Rightarrow> int option list" where
  "today_ranks df_today =
     (if list_ex (\<lambda>r. notna (pct_chg r)) df_today
      then map (map_option int) (rank_first_desc (map pct_chg df_today))
      else replicate (length df_today) None)"

text \<open>\<open>df_today.set_index("row_key")["cell_new"]\<close>, in both files.\<close>

definition new_series_fetch :: "today_row list \<Rightarrow> (string \<times> cell) list" where
  "new_series_fetch df_today =
     map2 (\<lambda>r rk. (row_key r, Some (fmt_cell rk (pct_chg r) (close r))))
       df_today (today_ranks df_today)"

definition new_series_ind ::
  "(rat \<Rightarrow> string) \<Rightarrow> today_row list \<Rightarrow> (string \<times> cell) list" where
  "new_series_ind float_str df_today =
     map2 (\<lambda>r rk. (row_key r,
                    Some (fmt_cell_ind float_str rk (pct_chg r) (close r) (turnover r)
                            (up_count r) (down_count r) (leader r))))
       df_today (today_ranks df_today)"

section \<open>The pandas operations of the patch\<close>

text \<open>
  \<open>Series.reindex(ix)\<close>: the values in the order of the labels \<open>ix\<close>, NaN for a
  label the series lacks. Equal indexes need no alignment; otherwise a series with a
  repeated label cannot be reindexed (\<open>ValueError\<close>).
\<close>

definition lookup :: "(string \<times> cell) list \<Rightarrow> string \<Rightarrow> cell" where
  "lookup S k = (case map_of S k of None \<Rightarrow> None | Some v \<Rightarrow> v)"

definition reindex :: "(string \<times> cell) list \<Rightarrow> string list \<Rightarrow> pd_error + cell list" where
  "reindex S ix =
     (if map fst S = ix then Inr (map snd S)
      else if \<not> distinct (map fst S) then Inl ValueError
      else Inr (map (lookup S) ix))"

text \<open>\<open>s.notna() & (s.str.len() > 0)\<close> on one cell.\<close>

definition nonempty_cell :: "cell \<Rightarrow> bool" where
  "nonempty_cell v = (case v of None \<Rightarrow> False | Some s \<Rightarrow> s \<noteq> [])"

text \<open>
  The boolean mask of a \<open>.loc\<close> assignment, given as a series with labels \<open>keys\<close>, is
  aligned with the index \<open>ix\<close> of the object it selects from: equal indexes need no
  alignment; a label of \<open>ix\<close> that the mask lacks is an \<open>IndexingError\<close>; a label the
  mask repeats makes the aligned mask too long (\<open>IndexError\<close>).
\<close>

definition check_bool_indexer ::
  "string list \<Rightarrow> string list \<Rightarrow> bool list \<Rightarrow> pd_error + bool list" where
  "check_bool_indexer ix keys msk =
     (if keys = ix then Inr msk
      else if list_ex (\<lambda>k. k \<notin> set keys) ix then Inl IndexingError
      else
        (let indexer = concat (map (\<lambda>k. filter (\<lambda>p. keys ! p = k) [0..<length keys]) ix);
             result = map (\<lambda>p. msk ! p) indexer
         in if length result \<noteq> length ix then Inl IndexError else Inr result))"

text \<open>\<open>obj[mask]\<close>: the entries at the places where the mask holds.\<close>

definition select :: "bool list \<Rightarrow> 'a list \<Rightarrow> 'a list" where
  "select msk xs = map snd (filter fst (zip msk xs))"

text \<open>
  \<open>old.loc[mask] = vals\<close>, the values already aligned: the places where the mask holds
  take the values in order.
\<close>

fun loc_set :: "bool list \<Rightarrow> 'a list \<Rightarrow> 'a list \<Rightarrow> 'a list" where
  "loc_set (b # bs) (x # xs) vals =
     (if b then (case vals of [] \<Rightarrow> x # loc_set bs xs [] | v # vs \<Rightarrow> v # loc_set bs xs vs)
      else x # loc_set bs xs vals)"
| "loc_set [] xs vals = xs"
| "loc_set bs [] vals = []"

text \<open>\<open>wide[c] = col\<close> for cells already aligned: replace the column, or add it last.\<close>

definition set_col :: "frame \<Rightarrow> string \<Rightarrow> cell list \<Rightarrow> frame" where
  "set_col W c col =
     (if c \<in> set (columns W)
      then W\<lparr>cols := map (\<lambda>p. if fst p = c then (c, col) else p) (cols W)\<rparr>
      else W\<lparr>cols := cols W @ [(c, col)]\<rparr>)"

text \<open>
  \<open>wide[c] = series\<close> for a column \<open>c\<close> the frame lacks: the series is reindexed to
  the frame's index; a frame without rows takes the index of a non-empty series, its
  other columns filled with NaN.
\<close>

definition setitem_series :: "frame \<Rightarrow> string \<Rightarrow> (string \<times> cell) list \<Rightarrow> pd_error + frame" where
  "setitem_series W c S =
     (if index W = [] \<and> S \<noteq> []
      then Inr (set_col \<lparr>index = map fst S,
                          cols = map (\<lambda>p. (fst p, replicate (length S) None)) (cols W)\<rparr>
                  c (map snd S))
      else (case reindex S (index W) of
              Inl e \<Rightarrow> Inl e
            | Inr col \<Rightarrow> Inr (set_col W c col)))"

text \<open>
  The column sort at the end of \<open>patch_today\<close>. \<open>to_dt\<close> stands for
  \<open>pd.to_datetime\<close>, \<open>None\<close> where it raises (\<open>pd.NaT\<close>). The columns whose names
  are dates come first, sorted by date (columns of equal date in their old order), then
  the others in their old order.
\<close>

definition date_pairs ::
  "(string \<Rightarrow> 'd::linorder option) \<Rightarrow> string list \<Rightarrow> (string \<times> 'd) list" where
  "date_pairs to_dt names =
     concat (map (\<lambda>c. case to_dt c of None \<Rightarrow> [] | Some d \<Rightarrow> [(c, d)]) names)"

definition date_cols :: "(string \<Rightarrow> 'd::linorder option) \<Rightarrow> string list \<Rightarrow> string list" where
  "date_cols to_dt names = map fst (sort_key snd (date_pairs to_dt names))"

definition other_cols :: "(string \<Rightarrow> 'd::linorder option) \<Rightarrow> string list \<Rightarrow> string list" where
  "other_cols to_dt names = filter (\<lambda>c. c \<notin> set (date_cols to_dt names)) names"

definition take_cols :: "frame \<Rightarrow> string list \<Rightarrow> frame" where
  "take_cols W names =
     W\<lparr>cols := concat (map (\<lambda>n. case map_of (cols W) n of None \<Rightarrow> []
                                   | Some col \<Rightarrow> [(n, col)]) names)\<rparr>"

definition sort_columns :: "(string \<Rightarrow> 'd::linorder option) \<Rightarrow> frame \<Rightarrow> frame" where
  "sort_columns to_dt W =
     take_cols W (date_cols to_dt (columns W) @ other_cols to_dt (columns W))"

definition to_csv :: "frame \<Rightarrow> csv_file" where
  "to_csv W = \<lparr>encoding = ''utf-8-sig'', index_label = ''row_key'', table = W\<rparr>"

section \<open>patch\_today\<close>

text \<open>
  \<open>patch_today\<close> of \<open>bk_fetch_data.py\<close>. An empty snapshot has no column
  \<open>pct_chg\<close> (\<open>KeyError\<close>). The result is the file written, or the exception raised
  before anything is written.
\<close>

definition patch_today_fetch ::
  "(string \<Rightarrow> 'd::linorder option) \<Rightarrow> frame \<Rightarrow> today_row list \<Rightarrow> string
     \<Rightarrow> pd_error + csv_file" where
  "patch_today_fetch to_dt wide df_today today_col =
     (if df_today = [] then Inl KeyError
      else
        (let series_new = new_series_fetch df_today in
         case map_of (cols wide) today_col of
           None \<Rightarrow>
             (case setitem_series wide today_col series_new of
                Inl e \<Rightarrow> Inl e
              | Inr w \<Rightarrow> Inr (to_csv (sort_columns to_dt w)))
         | Some old_col \<Rightarrow>
             (let msk = map (\<lambda>kv. nonempty_cell (snd kv)) series_new in
              case check_bool_indexer (index wide) (map fst series_new) msk of
                Inl e \<Rightarrow> Inl e
              | Inr m \<Rightarrow>
                  (case reindex (filter (\<lambda>kv. nonempty_cell (snd kv)) series_new)
                          (select m (index wide)) of
                     Inl e \<Rightarrow> Inl e
                   | Inr vals \<Rightarrow>
                       Inr (to_csv (sort_columns to_dt
                              (set_col wide today_col (loc_set m old_col vals))))))))"

text \<open>
  \<open>Index.difference\<close> with the default \<open>sort=None\<close>: the labels of the first index
  that the second lacks, each once, sorted; against an empty index the labels are not
  sorted.
\<close>

definition unique :: "'a list \<Rightarrow> 'a list" where
  "unique xs = rev (remdups (rev xs))"

definition index_difference :: "string list \<Rightarrow> string list \<Rightarrow> string list" where
  "index_difference a b =
     (if b = [] then unique a else sort (unique (filter (\<lambda>k. k \<notin> set b) a)))"

text \<open>
  \<open>pd.concat([wide, pd.DataFrame(index=new_keys, columns=wide.columns)])\<close>: rows of
  NaN are appended for the new labels.
\<close>

definition append_rows :: "frame \<Rightarrow> string list \<Rightarrow> frame" where
  "append_rows W new_keys =
     \<lparr>index = index W @ new_keys,
      cols = map (\<lambda>p. (fst p, snd p @ replicate (length new_keys) None)) (cols W)\<rparr>"

text \<open>
  The steps of \<open>patch_today\<close> of \<open>bk_data_ind.py\<close>: step 3 appends a row of NaN
  for every board of the snapshot that the table lacks; step 4 creates the today column,
  filled with empty strings, when the table lacks it, and overwrites the cells of the
  today column whose aligned new cell is a non-empty string.
\<close>

definition append_new_boards :: "frame \<Rightarrow> string list \<Rightarrow> frame" where
  "append_new_boards wide keys =
     (let new_keys = index_difference keys (index wide)
      in if new_keys \<noteq> [] then append_rows wide new_keys else wide)"

definition ensure_today_col :: "frame \<Rightarrow> string \<Rightarrow> frame" where
  "ensure_today_col wide today_col =
     (if today_col \<notin> set (columns wide)
      then set_col wide today_col (replicate (length (index wide)) (Some []))
      else wide)"

definition write_today :: "frame \<Rightarrow> string \<Rightarrow> cell list \<Rightarrow> frame" where
  "write_today wide today_col aligned_new =
     (let msk = map nonempty_cell aligned_new;
          old_col = (case map_of (cols wide) today_col of None \<Rightarrow> [] | Some col \<Rightarrow> col)
      in set_col wide today_col (loc_set msk old_col (select msk aligned_new)))"

text \<open>
  The scan for abnormal boards, between steps 3 and 4: when the table has a today column,
  every label \<open>k\<close> of the table that the snapshot lacks is tested with
  \<open>pd.notna(existing_today.get(k)) and ...\<close>. For a label that the index repeats,
  \<open>existing_today.get(k)\<close> is a Series, and its truth value raises \<open>ValueError\<close>.
  Otherwise the scan only prints.
\<close>

definition abnormal_scan_raises :: "frame \<Rightarrow> string list \<Rightarrow> string \<Rightarrow> bool" where
  "abnormal_scan_raises wide keys today_col \<longleftrightarrow>
     today_col \<in> set (columns wide)
     \<and> list_ex (\<lambda>k. k \<notin> set keys \<and> 1 < count_list (index wide) k) (index wide)"

text \<open>
  \<open>patch_today\<close> of \<open>bk_data_ind.py\<close>. Cells carry no dtype: writing a string
  cell into a today column that pandas holds as \<open>float64\<close> (a column read back with
  every cell empty) converts the column in pandas 2, which the model follows; pandas 3
  raises \<open>TypeError\<close> there.
\<close>

definition patch_today_ind ::
  "(rat \<Rightarrow> string) \<Rightarrow> (string \<Rightarrow> 'd::linorder option) \<Rightarrow> frame \<Rightarrow> today_row list
     \<Rightarrow> string \<Rightarrow> pd_error + csv_file" where
  "patch_today_ind float_str to_dt wide df_today today_col =
     (if df_today = [] then Inl KeyError
      else
        (let new_series = new_series_ind float_str df_today;
             wide1 = append_new_boards wide (map fst new_series)
         in if abnormal_scan_raises wide1 (map fst new_series) today_col then Inl ValueError
            else
              (let wide2 = ensure_today_col wide1 today_col
               in case reindex new_series (index wide2) of
                    Inl e \<Rightarrow> Inl e
                  | Inr aligned_new \<Rightarrow>
                      Inr (to_csv (sort_columns to_dt
                             (write_today wide2 today_col aligned_new))))))"

text \<open>
  The cell a \<open>.loc\<close> assignment under the mask \<open>notna & len > 0\<close> leaves at one place:
  the new cell when it is a non-empty string, the old cell otherwise.
\<close>

definition comb :: "cell \<Rightarrow> cell \<Rightarrow> cell" where
  "comb x a = (if nonempty_cell a then a else x)"

text \<open>
  The today column of \<open>bk_data_ind.py\<close> before its cells are overwritten, \<open>k\<close> rows
  having been appended: the old column with NaN in the appended rows, or a column of
  empty strings when the table had no today column.
\<close>

definition today_before :: "frame \<Rightarrow> string \<Rightarrow> nat \<Rightarrow> cell list" where
  "today_before W c k =
     (case map_of (cols W) c of
        None \<Rightarrow> replicate (length (index W) + k) (Some [])
      | Some col \<Rightarrow> col @ replicate k None)"

text \<open>
  The frame condition of the patch: the rows of \<open>W\<close> are still the first rows of
  \<open>W'\<close>, and every column of \<open>W\<close> other than \<open>c\<close> is a column of \<open>W'\<close> with the
  same cells in these rows.
\<close>

definition preserves_past :: "frame \<Rightarrow> string \<Rightarrow> frame \<Rightarrow> bool" where
  "preserves_past W c W' \<longleftrightarrow>
     take (length (index W)) (index W') = index W
     \<and> list_all (\<lambda>p. fst p = c \<or>
           (case map_of (cols W') (fst p) of
              None \<Rightarrow> False
            | Some col' \<Rightarrow> take (length (index W)) col' = snd p)) (cols W)"

section \<open>Example data\<close>

text \<open>
  The value of \<open>pd.to_datetime\<close> on the column names of the examples, as the day
  number \<open>yyyymmdd\<close>; \<open>note\<close> is no date.
\<close>

definition demo_to_dt :: "string \<Rightarrow> nat option" where
  "demo_to_dt = map_of [(''2024-01-01'', 20240101), (''2024-01-02'', 20240102),
                        (''2024-01-03'', 20240103)]"

text \<open>A snapshot row with price and change only, as \<open>bk_fetch_data.py\<close> builds it.\<close>

definition board :: "string \<Rightarrow> string \<Rightarrow> pyfloat option \<Rightarrow> pyfloat option \<Rightarrow> today_row" where
  "board code name cl pct =
     \<lparr>bk_code = code, bk_name = name, close = cl, pct_chg = pct, turnover = None,
      up_count = PNone, down_count = PNone, leader = PNone\<rparr>"

text \<open>Python's \<open>str\<close> on the floats of the examples, which are whole numbers.\<close>

definition demo_float_str :: "rat \<Rightarrow> string" where
  "demo_float_str q = str_int \<lfloor>q\<rfloor> @ ''.0''"

definition demo_wide :: frame where
  "demo_wide =
     \<lparr>index = [''BK1|A'', ''BK2|B''],
      cols = [(''2024-01-03'', [Some ''1|1.00|10'', Some ''2|0.50|20'']),
              (''note'', [None, Some ''x'']),
              (''2024-01-02'', [Some ''2|0.10|9'', None])]\<rparr>"

definition demo_today :: "today_row list" where
  "demo_today =
     [board ''BK3'' ''C'' (Some (Fin 5)) (Some (Fin 1)),
      board ''BK1'' ''A'' (Some (Fin 11)) (Some (Fin 2)),
      board ''BK2'' ''B'' None (Some NaN)]"

text \<open>A snapshot in which the feed omits the board \<open>BK2\<close> of the example table.\<close>

definition demo_partial :: "today_row list" where
  "demo_partial =
     [board ''BK3'' ''C'' (Some (Fin 5)) (Some (Fin 1)),
      board ''BK1'' ''A'' (Some (Fin 11)) (Some (Fin 2))]"

section \<open>The order of floats and the boards ranked together\<close>

text \<open>
  Python's \<open>x < y\<close> on floats: false when either side is NaN; negative zero compares
  as zero.
\<close>

fun float_lt :: "pyfloat \<Rightarrow> pyfloat \<Rightarrow> bool" where
  "float_lt NaN y = False"
| "float_lt x NaN = False"
| "float_lt NInf y = (y \<noteq> NInf)"
| "float_lt (Fin a) (Fin b) = (a < b)"
| "float_lt (Fin a) NegZero = (a < 0)"
| "float_lt (Fin a) PInf = True"
| "float_lt (Fin a) NInf = False"
| "float_lt NegZero (Fin b) = (0 < b)"
| "float_lt NegZero NegZero = False"
| "float_lt NegZero PInf = True"
| "float_lt NegZero NInf = False"
| "float_lt PInf y = False"

text \<open>\<open>a < b\<close> on two entries of a \<open>pct_chg\<close> column; a missing entry compares false.\<close>

fun pct_lt :: "pyfloat option \<Rightarrow> pyfloat option \<Rightarrow> bool" where
  "pct_lt (Some x) (Some y) = float_lt x y"
| "pct_lt a b = False"

text \<open>
  The rows ranked together with row \<open>i\<close>: those of the same key (trade date) whose
  \<open>pct_chg\<close> is present.
\<close>

definition peers :: "'k list \<Rightarrow> pyfloat option list \<Rightarrow> nat \<Rightarrow> nat list" where
  "peers keys xs i =
     filter (\<lambda>j. keys ! j = keys ! i \<and> notna (xs ! j)) [0..<length keys]"

text \<open>Four rows of a long table: their trade dates (as day numbers) and changes.\<close>

definition demo_dates :: "nat list" where
  "demo_dates = [20240102, 20240102, 20240103, 20240102]"

definition demo_pcts :: "pyfloat option list" where
  "demo_pcts = [Some (Fin 1), Some (Fin 3), Some (Fin 2), Some NaN]"

section \<open>Reading a cell back\<close>

text \<open>
  \<open>parse_triplet\<close> of \<open>bk_top_range.py\<close> reads a cell of the wide table. The cells
  of a table read with \<open>pd.read_csv\<close> are scalars: NaN, a string or a number.
  \<open>pd.isna\<close> holds for \<open>None\<close> and NaN.
\<close>

definition isna :: "pyval \<Rightarrow> bool" where
  "isna v \<longleftrightarrow> v = PNone \<or> v = PFloat NaN"

text \<open>\<open>s.split(c)\<close>: the fields between the separators, empty fields kept.\<close>

fun str_split :: "char \<Rightarrow> string \<Rightarrow> string list" where
  "str_split c [] = [[]]"
| "str_split c (x # xs) =
     (if x = c then [] # str_split c xs
      else (case str_split c xs of [] \<Rightarrow> [[x]] | p # ps \<Rightarrow> (x # p) # ps))"

text \<open>\<open>xs[i]\<close> for \<open>i \<ge> 0\<close> raises \<open>IndexError\<close> out of range.\<close>

definition item :: "'a list \<Rightarrow> nat \<Rightarrow> pd_error + 'a" where
  "item xs i = (if i < length xs then Inr (xs ! i) else Inl IndexError)"

text \<open>
  \<open>float(s)\<close> on a string: \<open>py_float\<close> stands for Python's parser, \<open>None\<close> where it
  raises \<open>ValueError\<close>.
\<close>

definition float_of :: "(string \<Rightarrow> pyfloat option) \<Rightarrow> string \<Rightarrow> pd_error + pyfloat" where
  "float_of py_float s = (case py_float s of None \<Rightarrow> Inl ValueError | Some x \<Rightarrow> Inr x)"

text \<open>\<open>int(x)\<close> on a float truncates towards zero; it raises on NaN and the infinities.\<close>

definition int_of :: "pyfloat \<Rightarrow> pd_error + int" where
  "int_of x =
     (case x of
        NaN \<Rightarrow> Inl ValueError
      | NInf \<Rightarrow> Inl OverflowError
      | PInf \<Rightarrow> Inl OverflowError
      | NegZero \<Rightarrow> Inr 0
      | Fin q \<Rightarrow> Inr (if 0 \<le> q then \<lfloor>q\<rfloor> else \<lceil>q\<rceil>))"

text \<open>The double that the literal \<open>1e-9\<close> denotes.\<close>

definition double_1e_9 :: rat where
  "double_1e_9 = 4835703278458517 / 2 ^ 82"

text \<open>
  \<open>abs(x - n) < 1e-9\<close> for a float \<open>x\<close> and an int \<open>n\<close>; the difference of a double
  and its integer part is a double, so the subtraction does not round.
\<close>

definition near_int :: "pyfloat \<Rightarrow> int \<Rightarrow> bool" where
  "near_int x n =
     (case x of
        Fin q \<Rightarrow> \<bar>q - of_int n\<bar> < double_1e_9
      | NegZero \<Rightarrow> \<bar>of_int n :: rat\<bar> < double_1e_9
      | _ \<Rightarrow> False)"

text \<open>
  \<open>int(rank_raw) if rank_raw > 0 and abs(rank_raw - int(rank_raw)) < 1e-9 else np.nan\<close>
\<close>

definition rank_of :: "pyfloat \<Rightarrow> pd_error + pyval" where
  "rank_of rank_raw =
     (if float_lt (Fin 0) rank_raw
      then (case int_of rank_raw of
              Inl e \<Rightarrow> Inl e
            | Inr n \<Rightarrow> if near_int rank_raw n then Inr (PInt n) else Inr (PFloat NaN))
      else Inr (PFloat NaN))"

text \<open>
  \<open>x / 100.0\<close>: \<open>round_double\<close> stands for the rounding of a rational to the nearest
  double.
\<close>

definition truediv_100 :: "(rat \<Rightarrow> pyfloat) \<Rightarrow> pyfloat \<Rightarrow> pyfloat" where
  "truediv_100 round_double x = (case x of Fin q \<Rightarrow> round_double (q / 100) | _ \<Rightarrow> x)"

type_synonym triplet = "pyval \<times> pyfloat \<times> pyfloat"

definition nan_triplet :: triplet where
  "nan_triplet = (PFloat NaN, NaN, NaN)"

text \<open>The body of the \<open>try\<close> block of \<open>parse_triplet\<close>.\<close>

definition parse_parts ::
  "(string \<Rightarrow> pyfloat option) \<Rightarrow> (rat \<Rightarrow> pyfloat) \<Rightarrow> string list \<Rightarrow> pd_error + triplet" where
  "parse_parts py_float round_double parts =
     (case item parts 0 of Inl e \<Rightarrow> Inl e | Inr p0 \<Rightarrow>
      case float_of py_float p0 of Inl e \<Rightarrow> Inl e | Inr rank_raw \<Rightarrow>
      case rank_of rank_raw of Inl e \<Rightarrow> Inl e | Inr rank \<Rightarrow>
      case item parts 1 of Inl e \<Rightarrow> Inl e | Inr p1 \<Rightarrow>
      case float_of py_float p1 of Inl e \<Rightarrow> Inl e | Inr pct_raw \<Rightarrow>
      case item parts 2 of Inl e \<Rightarrow> Inl e | Inr p2 \<Rightarrow>
      case float_of py_float p2 of Inl e \<Rightarrow> Inl e | Inr val \<Rightarrow>
        Inr (rank, truediv_100 round_double pct_raw, val))"

text \<open>
  \<open>parse_triplet\<close>: a missing cell gives the triple of NaN, and so does every exception
  of the body (\<open>except Exception\<close>).
\<close>

definition parse_triplet ::
  "(rat \<Rightarrow> string) \<Rightarrow> (string \<Rightarrow> pyfloat option) \<Rightarrow> (rat \<Rightarrow> pyfloat) \<Rightarrow> pyval
     \<Rightarrow> pd_error + triplet" where
  "parse_triplet float_str py_float round_double cell =
     (if isna cell then Inr nan_triplet
      else (case parse_parts py_float round_double
                   (str_split CHR ''|'' (py_str float_str cell)) of
              Inl e \<Rightarrow> Inr nan_triplet
            | Inr t \<Rightarrow> Inr t))"

text \<open>A stand-in for \<open>float\<close> on the strings of the examples.\<close>

definition demo_py_float :: "string \<Rightarrow> pyfloat option" where
  "demo_py_float = map_of [(''2'', Fin 2), (''1.00'', Fin 1), (''10'', Fin 10),
     (''5'', Fin 5), (''inf'', PInf), (''nan'', NaN), (''2.5'', Fin (5 / 2))]"

section \<open>Properties of the cell formatting\<close>

lemma digits_nonempty: "digits n \<noteq> []"
  by (subst digits.simps) simp

lemma digits_hd_not_dot: "hd (digits n) \<noteq> CHR ''.''"
proof (induction n rule: digits.induct)
  case (1 n)
  show ?case
  proof (cases "n < 10")
    case True
    then have "n \<in> {0, 1, 2, 3, 4, 5, 6, 7, 8, 9}" by auto
    then show ?thesis
      by (subst digits.simps) auto
  next
    case False
    with 1 show ?thesis
      by (subst digits.simps) (simp add: digits_nonempty)
  qed
qed

lemma str_int_nonempty: "str_int i \<noteq> []"
  by (simp add: str_int_def digits_nonempty)

lemma fmt_fixed_nonempty: "fmt_fixed d x \<noteq> []"
  by (cases x) (simp_all add: fmt_fixed_def Let_def digits_nonempty)

lemma rstrip_eq_Nil: "rstrip c s = [] \<longleftrightarrow> set s \<subseteq> {c}"
proof -
  have "dropWhile (\<lambda>x. x = c) (rev s) = [] \<longleftrightarrow> (\<forall>x \<in> set (rev s). x = c)"
    by (simp add: dropWhile_eq_Nil_conv)
  then show ?thesis by (auto simp: rstrip_def)
qed

lemma rstrip_hd: "rstrip c s \<noteq> [] \<Longrightarrow> hd (rstrip c s) = hd s"
proof (induction s rule: rev_induct)
  case Nil
  then show ?case by (simp add: rstrip_def)
next
  case (snoc x xs)
  show ?case
  proof (cases "x = c")
    case True
    then have eq: "rstrip c (xs @ [x]) = rstrip c xs" by (simp add: rstrip_def)
    with snoc have "hd (rstrip c xs) = hd xs" by simp
    moreover from snoc.prems eq have "xs \<noteq> []" by (auto simp: rstrip_def)
    ultimately show ?thesis using eq by simp
  next
    case False
    then show ?thesis by (simp add: rstrip_def)
  qed
qed

lemma rstrip_dot_nonempty:
  assumes dot: "CHR ''.'' \<in> set s" and hd_s: "hd s \<noteq> CHR ''.''"
  shows "rstrip (CHR ''.'') (rstrip (CHR ''0'') s) \<noteq> []"
proof -
  have ne0: "rstrip (CHR ''0'') s \<noteq> []"
    using dot by (auto simp: rstrip_eq_Nil)
  then have hd0: "hd (rstrip (CHR ''0'') s) = hd s" by (rule rstrip_hd)
  have "\<not> set (rstrip (CHR ''0'') s) \<subseteq> {CHR ''.''}"
    using ne0 hd0 hd_s hd_in_set [OF ne0] by auto
  then show ?thesis by (simp add: rstrip_eq_Nil)
qed

lemma rstrip_fixed_nonempty:
  "rstrip (CHR ''.'') (rstrip (CHR ''0'') (fmt_fixed d x)) \<noteq> []"
proof (cases x)
  case NaN
  then show ?thesis by (simp add: fmt_fixed_def rstrip_def)
next
  case NInf
  then show ?thesis by (simp add: fmt_fixed_def rstrip_def)
next
  case PInf
  then show ?thesis by (simp add: fmt_fixed_def rstrip_def)
next
  case NegZero
  have "fmt_fixed d x = ''-0.'' @ replicate d (CHR ''0'')"
    by (simp add: NegZero fmt_fixed_def)
  then show ?thesis by (simp add: rstrip_dot_nonempty)
next
  case (Fin q)
  define n where "n = nat (round_half_even (\<bar>q\<bar> * 10 ^ d))"
  define s where "s = fmt_fixed d x"
  have s: "s = (if q < 0 then ''-'' else []) @ digits (n div 10 ^ d) @ ''.''
                 @ zfill d (digits (n mod 10 ^ d))"
    by (simp add: s_def Fin fmt_fixed_def n_def Let_def)
  have dot: "CHR ''.'' \<in> set s" by (simp add: s)
  have hd_s: "hd s \<noteq> CHR ''.''"
    using digits_hd_not_dot [of "n div 10 ^ d"] digits_nonempty [of "n div 10 ^ d"]
    by (simp add: s hd_append)
  from dot hd_s show ?thesis unfolding s_def by (rule rstrip_dot_nonempty)
qed

lemma fmt_rank_Nil: "fmt_rank rank = [] \<longleftrightarrow> rank = None"
  by (cases rank) (simp_all add: fmt_rank_def str_int_nonempty)

lemma fmt_pct_Nil: "fmt_pct pct = [] \<longleftrightarrow> none_or_nan pct"
proof (cases pct)
  case None
  then show ?thesis by (simp add: fmt_pct_def none_or_nan_def)
next
  case (Some x)
  then show ?thesis
    using fmt_fixed_nonempty [of 2 x]
    by (cases x) (simp_all add: fmt_pct_def none_or_nan_def)
qed

lemma fmt_close_Nil: "fmt_close cl = [] \<longleftrightarrow> none_or_nan cl"
proof (cases cl)
  case None
  then show ?thesis by (simp add: fmt_close_def none_or_nan_def)
next
  case (Some x)
  then show ?thesis
    using rstrip_fixed_nonempty [of 4 x]
    by (cases x) (simp_all add: fmt_close_def none_or_nan_def)
qed

lemma py_str_float_nonempty: "\<forall>q. fs q \<noteq> [] \<Longrightarrow> py_str fs (PFloat x) \<noteq> []"
  by (cases x) simp_all

lemma fmt_count_Nil: "\<forall>q. fs q \<noteq> [] \<Longrightarrow> fmt_count fs v = [] \<longleftrightarrow> in_none_empty v"
  by (cases v) (simp_all add: fmt_count_def str_int_nonempty py_str_float_nonempty)

lemma fmt_leader_Nil: "\<forall>q. fs q \<noteq> [] \<Longrightarrow> fmt_leader fs v = [] \<longleftrightarrow> \<not> truthy v"
  by (cases v) (simp_all add: fmt_leader_def str_int_nonempty py_str_float_nonempty)

text \<open>Equations that evaluate the renderings at numerals.\<close>

lemma digits_small: "n < 10 \<Longrightarrow> digits n = [''0123456789'' ! n]"
  by (subst digits.simps) simp

lemma digits_large:
  "10 \<le> n \<Longrightarrow> digits n = digits (n div 10) @ [''0123456789'' ! (n mod 10)]"
  by (subst digits.simps) simp

lemma replicate_numeral: "replicate (numeral k) x = x # replicate (pred_numeral k) x"
  by (simp add: numeral_eq_Suc)

lemmas fmt_eval = fmt_cell_def fmt_cell_ind_def fmt_rank_def fmt_pct_def fmt_close_def
  fmt_count_def fmt_leader_def str_int_def fmt_fixed_def round_half_even_def zfill_def
  rstrip_def Let_def digits_small digits_large replicate_numeral

text \<open>
  Claim C7, as stated, at the seven-field variant: with \<open>up_count\<close> the float NaN and
  every other field \<open>None\<close>, every field is absent in the claim's sense, yet the cell is
  not empty.
\<close>

theorem fmt_cell_ind_nan_count_counterexample:
  "absent_uniform (PFloat NaN) \<and> absent_uniform PNone
   \<and> fmt_cell_ind demo_float_str None None None None (PFloat NaN) PNone PNone = ''||||nan||''"
  by (simp add: absent_uniform_def fmt_cell_ind_def fmt_rank_def fmt_pct_def
      fmt_close_def fmt_count_def fmt_leader_def)

text \<open>
  Claim C7, amended: \<open>fmt_cell\<close> returns the empty string exactly when the rank is
  \<open>None\<close> and pct and value are \<open>None\<close> or NaN; the seven-field variant exactly when,
  in addition, turnover is \<open>None\<close> or NaN, \<open>up_count\<close> and \<open>down_count\<close> are \<open>None\<close>
  or the empty string, and the leader is falsy. Otherwise the result is the renderings of
  the fields joined by \<open>|\<close>, an absent field rendered as the empty string. Python's
  \<open>str\<close> of a float is taken as never empty.
\<close>

theorem fmt_cell_empty_iff_absent:
  assumes fs: "\<forall>q. fs q \<noteq> []"
  shows "(fmt_cell rank pct cl = [] \<longleftrightarrow> rank = None \<and> none_or_nan pct \<and> none_or_nan cl)
   \<and> fmt_cell rank pct cl =
       (if rank = None \<and> none_or_nan pct \<and> none_or_nan cl then []
        else join ''|'' [fmt_rank rank, fmt_pct pct, fmt_close cl])
   \<and> (fmt_cell_ind fs rank pct cl tv up down ld = [] \<longleftrightarrow>
        rank = None \<and> none_or_nan pct \<and> none_or_nan cl \<and> none_or_nan tv
        \<and> in_none_empty up \<and> in_none_empty down \<and> \<not> truthy ld)
   \<and> fmt_cell_ind fs rank pct cl tv up down ld =
       (if rank = None \<and> none_or_nan pct \<and> none_or_nan cl \<and> none_or_nan tv
           \<and> in_none_empty up \<and> in_none_empty down \<and> \<not> truthy ld then []
        else join ''|'' [fmt_rank rank, fmt_pct pct, fmt_close cl, fmt_pct tv,
                         fmt_count fs up, fmt_count fs down, fmt_leader fs ld])"
proof -
  have a: "fmt_cell rank pct cl =
       (if rank = None \<and> none_or_nan pct \<and> none_or_nan cl then []
        else join ''|'' [fmt_rank rank, fmt_pct pct, fmt_close cl])"
    by (simp add: fmt_cell_def Let_def fmt_rank_Nil fmt_pct_Nil fmt_close_Nil)
  have b: "fmt_cell_ind fs rank pct cl tv up down ld =
       (if rank = None \<and> none_or_nan pct \<and> none_or_nan cl \<and> none_or_nan tv
           \<and> in_none_empty up \<and> in_none_empty down \<and> \<not> truthy ld then []
        else join ''|'' [fmt_rank rank, fmt_pct pct, fmt_close cl, fmt_pct tv,
                         fmt_count fs up, fmt_count fs down, fmt_leader fs ld])"
    by (simp add: fmt_cell_ind_def Let_def fmt_rank_Nil fmt_pct_Nil fmt_close_Nil
        fmt_count_Nil [OF fs] fmt_leader_Nil [OF fs])
  have c: "fmt_cell rank pct cl = [] \<longleftrightarrow>
             rank = None \<and> none_or_nan pct \<and> none_or_nan cl"
    by (simp add: a)
  have d: "fmt_cell_ind fs rank pct cl tv up down ld = [] \<longleftrightarrow>
        rank = None \<and> none_or_nan pct \<and> none_or_nan cl \<and> none_or_nan tv
        \<and> in_none_empty up \<and> in_none_empty down \<and> \<not> truthy ld"
    by (simp add: b)
  from a b c d show ?thesis by blast
qed

lemma demo_float_str_nonempty: "\<forall>q. demo_float_str q \<noteq> []"
  by (simp add: demo_float_str_def)

theorem fmt_cell_empty_iff_absent_witness:
  "(\<forall>q. demo_float_str q \<noteq> [])
   \<and> fmt_cell (Some 3) (Some (Fin (5 / 4))) (Some (Fin (2469 / 2))) = ''3|1.25|1234.5''
   \<and> fmt_cell None (Some NaN) None = []
   \<and> fmt_cell (Some 1) (Some NegZero) (Some NegZero) = ''1|-0.00|-0''
   \<and> fmt_cell_ind demo_float_str (Some 12) (Some (Fin (5 / 4))) None (Some (Fin 3))
         (PFloat (Fin 5)) (PStr []) (PStr ''abc'') = ''12|1.25||3.00|5.0||abc''
   \<and> fmt_cell_ind demo_float_str None None (Some NaN) None PNone (PStr []) (PInt 0) = []"
  using fmt_cell_empty_iff_absent [OF demo_float_str_nonempty,
      of "Some 3" "Some (Fin (5 / 4))" "Some (Fin (2469 / 2))"]
    demo_float_str_nonempty
  by (simp add: fmt_eval demo_float_str_def)

section \<open>Properties of the table operations\<close>

lemma length_loc_set: "length (loc_set m old vals) = length old"
  by (induction m old vals rule: loc_set.induct) (auto split: list.splits)

lemma loc_set_select:
  "length old = length al \<Longrightarrow>
   loc_set (map P al) old (select (map P al) al) = map2 (\<lambda>x a. if P a then a else x) old al"
proof (induction al arbitrary: old)
  case Nil
  then show ?case by simp
next
  case (Cons a al)
  then obtain x xs where old: "old = x # xs" by (cases old) auto
  with Cons have "length xs = length al" by simp
  from Cons.IH [OF this] show ?case
    by (simp add: old select_def)
qed

lemma loc_set_idem: "loc_set m (loc_set m old vals) vals = loc_set m old vals"
  by (induction m old vals rule: loc_set.induct) (auto split: list.splits)

lemma loc_set_unmasked:
  "i < length old \<Longrightarrow> i < length m \<Longrightarrow> \<not> m ! i \<Longrightarrow> loc_set m old vals ! i = old ! i"
proof (induction m old vals arbitrary: i rule: loc_set.induct)
  case (1 b bs x xs vals)
  then show ?case by (cases i) (auto split: list.splits)
qed auto

lemma index_set_col [simp]: "index (set_col W c col) = index W"
  by (simp add: set_col_def)

lemma cols_set_col_in:
  "c \<in> set (columns W) \<Longrightarrow>
   cols (set_col W c col) = map (\<lambda>p. if fst p = c then (c, col) else p) (cols W)"
  by (simp add: set_col_def)

lemma cols_set_col_notin:
  "c \<notin> set (columns W) \<Longrightarrow> cols (set_col W c col) = cols W @ [(c, col)]"
  by (simp add: set_col_def)

lemma map_fst_replace:
  "map fst (map (\<lambda>p. if fst p = c then (c, col) else p) xs) = map fst xs"
  by (induction xs) auto

lemma map_of_replace:
  "map_of (map (\<lambda>p. if fst p = c then (c, col) else p) xs) n =
     (if n = c \<and> c \<in> fst ` set xs then Some col else map_of xs n)"
  by (induction xs) (force simp: image_iff)+

lemma map_of_snoc:
  "c \<notin> fst ` set xs \<Longrightarrow>
   map_of (xs @ [(c, col)]) n = (if n = c then Some col else map_of xs n)"
  by (induction xs) auto

lemma columns_set_col:
  "columns (set_col W c col) = (if c \<in> set (columns W) then columns W else columns W @ [c])"
proof (cases "c \<in> set (columns W)")
  case True
  have "columns (set_col W c col) = map fst (cols (set_col W c col))"
    by (simp only: columns_def)
  also have "\<dots> = map fst (cols W)"
    by (simp only: cols_set_col_in [OF True] map_fst_replace)
  finally show ?thesis using True by (simp only: columns_def if_True)
next
  case False
  have "columns (set_col W c col) = map fst (cols (set_col W c col))"
    by (simp only: columns_def)
  also have "\<dots> = map fst (cols W) @ [c]"
    by (simp add: cols_set_col_notin [OF False])
  finally show ?thesis using False by (simp add: columns_def)
qed

lemma map_of_set_col:
  "map_of (cols (set_col W c col)) n = (if n = c then Some col else map_of (cols W) n)"
proof (cases "c \<in> set (columns W)")
  case True
  then have "c \<in> fst ` set (cols W)" by (simp add: columns_def)
  then show ?thesis
    by (simp only: cols_set_col_in [OF True] map_of_replace) simp
next
  case False
  then have "c \<notin> fst ` set (cols W)" by (simp add: columns_def)
  then show ?thesis
    by (simp add: cols_set_col_notin [OF False] map_of_snoc del: map_of_append)
qed

lemma set_col_same:
  "distinct (columns W) \<Longrightarrow> map_of (cols W) c = Some col \<Longrightarrow> set_col W c col = W"
proof -
  assume d: "distinct (columns W)" and m: "map_of (cols W) c = Some col"
  have c: "c \<in> set (columns W)" using m by (auto simp: columns_def dest: map_of_SomeD intro: rev_image_eqI)
  have "map (\<lambda>p. if fst p = c then (c, col) else p) (cols W) = cols W"
  proof (rule map_idI)
    fix x assume "x \<in> set (cols W)"
    then have "map_of (cols W) (fst x) = Some (snd x)"
      using d by (simp add: columns_def map_of_eq_Some_iff)
    with m show "(if fst x = c then (c, col) else x) = x"
      by (cases x) auto
  qed
  then show ?thesis using c by (simp add: set_col_def)
qed

lemma map_of_take_cols:
  "map_of (cols (take_cols W ns)) n = (if n \<in> set ns then map_of (cols W) n else None)"
proof -
  have "map_of (concat (map (\<lambda>n. case map_of xs n of None \<Rightarrow> [] | Some col \<Rightarrow> [(n, col)]) ns)) n
        = (if n \<in> set ns then map_of xs n else None)" for xs :: "(string \<times> cell list) list"
    by (induction ns) (auto simp: map_add_def split: option.splits)
  then show ?thesis by (simp add: take_cols_def)
qed

lemma index_take_cols [simp]: "index (take_cols W ns) = index W"
  by (simp add: take_cols_def)

lemma columns_take_cols:
  assumes "set ns \<subseteq> set (columns W)"
  shows "columns (take_cols W ns) = ns"
proof -
  have "set ns \<subseteq> fst ` set xs \<Longrightarrow>
        map fst (concat (map (\<lambda>n. case map_of xs n of None \<Rightarrow> [] | Some col \<Rightarrow> [(n, col)]) ns)) = ns"
    for xs :: "(string \<times> cell list) list"
  proof (induction ns)
    case Nil
    then show ?case by simp
  next
    case (Cons a ns)
    then have "a \<in> fst ` set xs" by simp
    then obtain v where "map_of xs a = Some v"
      by (metis domD dom_map_of_conv_image_fst)
    with Cons show ?case by simp
  qed
  then show ?thesis using assms by (simp add: take_cols_def columns_def)
qed

lemma map_fst_date_pairs:
  "map fst (date_pairs to_dt ns) = filter (\<lambda>c. to_dt c \<noteq> None) ns"
  by (induction ns) (auto simp: date_pairs_def split: option.splits)

lemma date_pairs_to_dt:
  "p \<in> set (date_pairs to_dt ns) \<Longrightarrow> to_dt (fst p) = Some (snd p)"
  by (induction ns) (auto simp: date_pairs_def split: option.splits)

lemma date_pairs_append:
  "date_pairs to_dt (xs @ ys) = date_pairs to_dt xs @ date_pairs to_dt ys"
  by (simp add: date_pairs_def)

lemma date_pairs_map_fst:
  "\<forall>p \<in> set M. to_dt (fst p) = Some (snd p) \<Longrightarrow> date_pairs to_dt (map fst M) = M"
  by (induction M) (auto simp: date_pairs_def)

lemma date_pairs_none:
  "\<forall>c \<in> set ns. to_dt c = None \<Longrightarrow> date_pairs to_dt ns = []"
  by (induction ns) (auto simp: date_pairs_def)

lemma set_date_cols:
  "set (date_cols to_dt ns) = {c \<in> set ns. to_dt c \<noteq> None}"
proof -
  have "set (date_cols to_dt ns) = set (map fst (date_pairs to_dt ns))"
    by (simp add: date_cols_def)
  then show ?thesis by (simp add: map_fst_date_pairs)
qed

lemma distinct_date_cols:
  assumes "distinct ns"
  shows "distinct (date_cols to_dt ns)"
proof -
  have "distinct (map fst (date_pairs to_dt ns))"
    using assms by (simp add: map_fst_date_pairs)
  then show ?thesis
    by (simp add: date_cols_def distinct_map)
qed

lemma other_cols_eq:
  "other_cols to_dt ns = filter (\<lambda>c. to_dt c = None) ns"
  unfolding other_cols_def
  by (rule filter_cong) (auto simp: set_date_cols)

lemma set_sorted_names:
  "set (date_cols to_dt ns @ other_cols to_dt ns) = set ns"
  by (auto simp: set_date_cols other_cols_eq)

lemma distinct_sorted_names:
  "distinct ns \<Longrightarrow> distinct (date_cols to_dt ns @ other_cols to_dt ns)"
  by (auto simp: distinct_date_cols other_cols_eq set_date_cols)

lemma date_cols_sorted:
  "map to_dt (date_cols to_dt ns) = map Some (map snd (sort_key snd (date_pairs to_dt ns)))
   \<and> sorted (map snd (sort_key snd (date_pairs to_dt ns)))"
proof -
  have "\<forall>p \<in> set (sort_key snd (date_pairs to_dt ns)). to_dt (fst p) = Some (snd p)"
    by (simp add: date_pairs_to_dt)
  then have "map to_dt (map fst (sort_key snd (date_pairs to_dt ns)))
      = map Some (map snd (sort_key snd (date_pairs to_dt ns)))"
    by simp
  then show ?thesis by (simp add: date_cols_def)
qed

lemma date_cols_idem:
  "date_cols to_dt (date_cols to_dt ns @ other_cols to_dt ns) = date_cols to_dt ns"
proof -
  let ?M = "sort_key snd (date_pairs to_dt ns)"
  have a: "date_pairs to_dt (date_cols to_dt ns) = ?M"
    unfolding date_cols_def
    by (rule date_pairs_map_fst) (simp add: date_pairs_to_dt)
  have b: "date_pairs to_dt (other_cols to_dt ns) = []"
    by (rule date_pairs_none) (simp add: other_cols_eq)
  have c: "sort_key snd ?M = ?M"
    by (rule sort_key_id_if_sorted) simp
  have "date_cols to_dt (date_cols to_dt ns @ other_cols to_dt ns)
      = map fst (sort_key snd (date_pairs to_dt (date_cols to_dt ns @ other_cols to_dt ns)))"
    by (simp only: date_cols_def)
  also have "\<dots> = map fst (sort_key snd ?M)"
    by (simp only: date_pairs_append a b append_Nil2)
  also have "\<dots> = date_cols to_dt ns"
    by (simp only: c date_cols_def)
  finally show ?thesis .
qed

lemma other_cols_idem:
  "other_cols to_dt (date_cols to_dt ns @ other_cols to_dt ns) = other_cols to_dt ns"
proof -
  have "filter (\<lambda>c. to_dt c = None) (date_cols to_dt ns) = []"
    by (auto simp: filter_empty_conv set_date_cols)
  moreover have "filter (\<lambda>c. to_dt c = None) (other_cols to_dt ns) = other_cols to_dt ns"
    by (simp add: other_cols_eq)
  ultimately show ?thesis
    by (simp add: other_cols_eq [of to_dt "_ @ _"])
qed

lemma index_sort_columns [simp]: "index (sort_columns to_dt W) = index W"
  by (simp add: sort_columns_def)

lemma columns_sort_columns:
  "columns (sort_columns to_dt W) = date_cols to_dt (columns W) @ other_cols to_dt (columns W)"
  unfolding sort_columns_def
  by (rule columns_take_cols) (simp only: set_sorted_names)

lemma map_of_sort_columns:
  "map_of (cols (sort_columns to_dt W)) n = map_of (cols W) n"
proof -
  have "n \<notin> set (columns W) \<Longrightarrow> map_of (cols W) n = None"
    by (simp add: columns_def map_of_eq_None_iff)
  then show ?thesis
    unfolding sort_columns_def map_of_take_cols set_sorted_names by auto
qed

lemma concat_lookup_self:
  "distinct (map fst xs) \<Longrightarrow>
   concat (map (\<lambda>n. case map_of xs n of None \<Rightarrow> [] | Some col \<Rightarrow> [(n, col)]) (map fst xs)) = xs"
proof (induction xs)
  case Nil
  then show ?case by simp
next
  case (Cons x xs)
  obtain a b where x: "x = (a, b)" by (cases x)
  from Cons.prems x have a: "a \<notin> fst ` set xs" and d: "distinct (map fst xs)" by auto
  have eq: "map (\<lambda>n. case map_of (x # xs) n of None \<Rightarrow> [] | Some col \<Rightarrow> [(n, col)]) (map fst xs)
        = map (\<lambda>n. case map_of xs n of None \<Rightarrow> [] | Some col \<Rightarrow> [(n, col)]) (map fst xs)"
  proof (rule map_cong [OF refl])
    fix n assume "n \<in> set (map fst xs)"
    with a have "n \<noteq> a" by auto
    then show "(case map_of (x # xs) n of None \<Rightarrow> [] | Some col \<Rightarrow> [(n, col)])
             = (case map_of xs n of None \<Rightarrow> [] | Some col \<Rightarrow> [(n, col)])"
      by (simp add: x)
  qed
  have "concat (map (\<lambda>n. case map_of (x # xs) n of None \<Rightarrow> [] | Some col \<Rightarrow> [(n, col)])
          (map fst (x # xs)))
      = [(a, b)] @ concat (map (\<lambda>n. case map_of (x # xs) n of None \<Rightarrow> []
                                     | Some col \<Rightarrow> [(n, col)]) (map fst xs))"
    by (simp add: x)
  also have "\<dots> = [(a, b)] @ xs"
    by (simp only: eq Cons.IH [OF d])
  finally show ?case by (simp add: x)
qed

lemma take_cols_self:
  assumes "distinct (columns W)"
  shows "take_cols W (columns W) = W"
  using concat_lookup_self [of "cols W"] assms by (simp add: take_cols_def columns_def)

lemma sort_columns_idem:
  assumes "distinct (columns W)"
  shows "sort_columns to_dt (sort_columns to_dt W) = sort_columns to_dt W"
proof -
  let ?W' = "sort_columns to_dt W"
  have c: "columns ?W' = date_cols to_dt (columns W) @ other_cols to_dt (columns W)"
    by (rule columns_sort_columns)
  have d: "distinct (columns ?W')"
    using assms by (simp only: c distinct_sorted_names)
  have "date_cols to_dt (columns ?W') @ other_cols to_dt (columns ?W') = columns ?W'"
    by (simp only: c date_cols_idem other_cols_idem)
  then have "sort_columns to_dt ?W' = take_cols ?W' (columns ?W')"
    by (simp only: sort_columns_def [of to_dt ?W'])
  with d show ?thesis by (simp only: take_cols_self)
qed

lemma wf_frameI:
  "distinct (columns W) \<Longrightarrow>
   (\<And>n col. map_of (cols W) n = Some col \<Longrightarrow> length col = length (index W)) \<Longrightarrow> wf_frame W"
  unfolding wf_frame_def list_all_iff columns_def
  by (auto simp: map_of_eq_Some_iff)

lemma wf_frame_length:
  "wf_frame W \<Longrightarrow> map_of (cols W) n = Some col \<Longrightarrow> length col = length (index W)"
  unfolding wf_frame_def list_all_iff
  by (force dest: map_of_SomeD)

lemma wf_frame_distinct: "wf_frame W \<Longrightarrow> distinct (columns W)"
  by (simp add: wf_frame_def)

lemma wf_sort_columns:
  assumes "wf_frame W"
  shows "wf_frame (sort_columns to_dt W)"
proof (rule wf_frameI)
  show "distinct (columns (sort_columns to_dt W))"
    using assms by (simp only: columns_sort_columns distinct_sorted_names wf_frame_distinct)
next
  fix n col assume "map_of (cols (sort_columns to_dt W)) n = Some col"
  then show "length col = length (index (sort_columns to_dt W))"
    using assms by (simp add: map_of_sort_columns wf_frame_length)
qed

lemma wf_set_col:
  assumes "wf_frame W" "length col = length (index W)"
  shows "wf_frame (set_col W c col)"
proof (rule wf_frameI)
  show "distinct (columns (set_col W c col))"
    using assms(1) by (auto simp: columns_set_col wf_frame_distinct)
next
  fix n col' assume "map_of (cols (set_col W c col)) n = Some col'"
  then show "length col' = length (index (set_col W c col))"
    using assms by (auto simp: map_of_set_col wf_frame_length split: if_splits)
qed

section \<open>Properties of patch_today\<close>

lemma length_rank_first_desc [simp]: "length (rank_first_desc xs) = length xs"
  by (simp add: rank_first_desc_def)

lemma length_today_ranks [simp]: "length (today_ranks D) = length D"
  by (simp add: today_ranks_def)

lemma map_fst_map2:
  "length ys = length xs \<Longrightarrow> map fst (map2 (\<lambda>r rk. (g r, h r rk)) xs ys) = map g xs"
proof -
  assume l: "length ys = length xs"
  have "map fst (map2 (\<lambda>r rk. (g r, h r rk)) xs ys) = map g (map fst (zip xs ys))"
    by (simp add: o_def split_def)
  with l show ?thesis by simp
qed

lemma keys_new_series_ind: "map fst (new_series_ind fs D) = map row_key D"
  unfolding new_series_ind_def by (rule map_fst_map2) simp

lemma keys_new_series_fetch: "map fst (new_series_fetch D) = map row_key D"
  unfolding new_series_fetch_def by (rule map_fst_map2) simp

lemma reindex_length: "reindex S ix = Inr al \<Longrightarrow> length al = length ix"
  by (auto simp: reindex_def split: if_splits)

lemma lookup_distinct:
  "distinct (map fst S) \<Longrightarrow> map (lookup S) (map fst S) = map snd S"
  by (induction S) (auto simp: lookup_def image_iff intro!: map_cong [OF refl] split: option.splits)

lemma reindex_distinct:
  "distinct (map fst S) \<Longrightarrow> reindex S ix = Inr (map (lookup S) ix)"
  using lookup_distinct [of S] by (auto simp: reindex_def)

lemma set_unique [simp]: "set (unique xs) = set xs"
  by (simp add: unique_def)

lemma distinct_unique [simp]: "distinct (unique xs)"
  by (simp add: unique_def)

lemma set_index_difference: "set (index_difference a b) = set a - set b"
  by (auto simp: index_difference_def)

lemma distinct_index_difference: "distinct (index_difference a b)"
  by (simp add: index_difference_def)

lemma index_difference_Nil:
  "set a \<subseteq> set b \<Longrightarrow> a \<noteq> [] \<Longrightarrow> index_difference a b = []"
proof -
  assume s: "set a \<subseteq> set b" and a: "a \<noteq> []"
  then have "b \<noteq> []" by auto
  moreover have "filter (\<lambda>k. k \<notin> set b) a = []"
    using s by (auto simp: filter_empty_conv)
  ultimately show ?thesis by (simp add: index_difference_def unique_def)
qed

lemma append_rows_Nil: "append_rows W [] = W"
  by (simp add: append_rows_def)

lemma append_new_boards_eq:
  "append_new_boards W ks = append_rows W (index_difference ks (index W))"
  by (simp add: append_new_boards_def Let_def append_rows_Nil)

lemma index_append_rows [simp]: "index (append_rows W nk) = index W @ nk"
  by (simp add: append_rows_def)

lemma columns_append_rows [simp]: "columns (append_rows W nk) = columns W"
  by (simp add: append_rows_def columns_def o_def)

lemma map_of_append_rows:
  "map_of (cols (append_rows W nk)) n =
     map_option (\<lambda>col. col @ replicate (length nk) None) (map_of (cols W) n)"
proof -
  have "map_of (map (\<lambda>p. (fst p, f (snd p))) xs) n = map_option f (map_of xs n)"
    for f :: "cell list \<Rightarrow> cell list" and xs
    by (induction xs) auto
  then show ?thesis by (simp add: append_rows_def)
qed

lemma wf_append_rows:
  assumes "wf_frame W"
  shows "wf_frame (append_rows W nk)"
proof (rule wf_frameI)
  show "distinct (columns (append_rows W nk))"
    using assms by (simp add: wf_frame_distinct)
next
  fix n col assume "map_of (cols (append_rows W nk)) n = Some col"
  then show "length col = length (index (append_rows W nk))"
    using assms by (auto simp: map_of_append_rows wf_frame_length)
qed

lemma index_ensure_today_col [simp]: "index (ensure_today_col W c) = index W"
  by (simp add: ensure_today_col_def)

lemma wf_ensure_today_col:
  "wf_frame W \<Longrightarrow> wf_frame (ensure_today_col W c)"
  by (simp add: ensure_today_col_def wf_set_col)

lemma map_of_ensure_today_col:
  "map_of (cols (ensure_today_col W c)) n =
     (if n = c \<and> c \<notin> set (columns W) then Some (replicate (length (index W)) (Some []))
      else map_of (cols W) n)"
  by (simp add: ensure_today_col_def map_of_set_col)

lemma today_col_present:
  "\<exists>old. map_of (cols (ensure_today_col W c)) c = Some old"
proof (cases "c \<in> set (columns W)")
  case True
  then obtain old where "map_of (cols W) c = Some old"
    unfolding columns_def by (metis domD dom_map_of_conv_image_fst set_map)
  with True show ?thesis by (simp add: map_of_ensure_today_col)
next
  case False
  then show ?thesis by (simp add: map_of_ensure_today_col)
qed

lemma write_today_eq:
  assumes "map_of (cols W) c = Some old" "length old = length al"
  shows "write_today W c al = set_col W c (map2 comb old al)"
proof -
  have "loc_set (map nonempty_cell al) old (select (map nonempty_cell al) al)
      = map2 (\<lambda>x a. if nonempty_cell a then a else x) old al"
    using assms(2) by (rule loc_set_select)
  then show ?thesis
    using assms(1) by (simp add: write_today_def Let_def comb_def [abs_def])
qed

lemma map_of_None_columns: "map_of (cols W) c = None \<longleftrightarrow> c \<notin> set (columns W)"
  by (simp add: columns_def map_of_eq_None_iff)

lemma today_col_prepared:
  "map_of (cols (ensure_today_col (append_rows W nk) c)) c = Some (today_before W c (length nk))"
proof (cases "map_of (cols W) c")
  case None
  then have "c \<notin> set (columns W)" by (simp add: map_of_None_columns)
  with None show ?thesis
    by (simp add: map_of_ensure_today_col today_before_def)
next
  case (Some col)
  then have "c \<in> set (columns W)"
    using map_of_None_columns [of W c] by auto
  with Some show ?thesis
    by (simp add: map_of_ensure_today_col today_before_def map_of_append_rows)
qed

lemma length_today_before:
  "wf_frame W \<Longrightarrow> length (today_before W c k) = length (index W) + k"
  by (auto simp: today_before_def wf_frame_length split: option.splits)

lemma patch_today_ind_Inr:
  assumes ok: "patch_today_ind fs to_dt W D c = Inr out" and wf: "wf_frame W"
  obtains al W2 where
    "D \<noteq> []"
    "W2 = ensure_today_col (append_rows W (index_difference (map row_key D) (index W))) c"
    "wf_frame W2"
    "reindex (new_series_ind fs D) (index W2) = Inr al"
    "length al = length (index W2)"
    "out = to_csv (sort_columns to_dt
             (set_col W2 c (map2 comb
                (today_before W c (length (index_difference (map row_key D) (index W)))) al)))"
proof -
  define nk where "nk = index_difference (map row_key D) (index W)"
  define W2 where "W2 = ensure_today_col (append_rows W nk) c"
  have D: "D \<noteq> []" using ok by (auto simp: patch_today_ind_def)
  have w2: "ensure_today_col (append_new_boards W (map fst (new_series_ind fs D))) c = W2"
    by (simp add: W2_def nk_def append_new_boards_eq keys_new_series_ind)
  have wf2: "wf_frame W2"
    unfolding W2_def using wf by (intro wf_ensure_today_col wf_append_rows)
  from ok D have "(case reindex (new_series_ind fs D) (index W2) of
                     Inl e \<Rightarrow> Inl e
                   | Inr al \<Rightarrow> Inr (to_csv (sort_columns to_dt (write_today W2 c al))))
                  = Inr out"
    unfolding patch_today_ind_def Let_def w2 by (simp split: if_splits)
  then obtain al where al: "reindex (new_series_ind fs D) (index W2) = Inr al"
    and out: "out = to_csv (sort_columns to_dt (write_today W2 c al))"
    by (cases "reindex (new_series_ind fs D) (index W2)") auto
  have len: "length al = length (index W2)" using al by (rule reindex_length)
  have old: "map_of (cols W2) c = Some (today_before W c (length nk))"
    unfolding W2_def by (rule today_col_prepared)
  have "length (today_before W c (length nk)) = length al"
    using wf len by (simp add: length_today_before W2_def)
  with old have "write_today W2 c al = set_col W2 c (map2 comb (today_before W c (length nk)) al)"
    by (rule write_today_eq)
  with out have "out = to_csv (sort_columns to_dt
       (set_col W2 c (map2 comb (today_before W c (length nk)) al)))" by simp
  with D wf2 al len show thesis
    using that [of W2 al] by (simp add: W2_def nk_def)
qed

lemma table_to_csv [simp]: "table (to_csv W) = W"
  by (simp add: to_csv_def)

lemma patch_today_ind_out:
  assumes ok: "patch_today_ind fs to_dt W D c = Inr out" and wf: "wf_frame W"
  defines "nk \<equiv> index_difference (map row_key D) (index W)"
  shows "\<exists>al. reindex (new_series_ind fs D) (index W @ nk) = Inr al
          \<and> length al = length (index W) + length nk
          \<and> index (table out) = index W @ nk
          \<and> (\<forall>n. map_of (cols (table out)) n =
                 (if n = c then Some (map2 comb (today_before W c (length nk)) al)
                  else map_option (\<lambda>col. col @ replicate (length nk) None)
                         (map_of (cols W) n)))"
proof -
  from ok wf obtain al W2 where
    W2: "W2 = ensure_today_col (append_rows W nk) c" and
    al: "reindex (new_series_ind fs D) (index W2) = Inr al" and
    len: "length al = length (index W2)" and
    out: "out = to_csv (sort_columns to_dt
             (set_col W2 c (map2 comb (today_before W c (length nk)) al)))"
    unfolding nk_def by (rule patch_today_ind_Inr)
  have ix: "index W2 = index W @ nk" by (simp add: W2)
  have "map_of (cols (table out)) n =
          (if n = c then Some (map2 comb (today_before W c (length nk)) al)
           else map_option (\<lambda>col. col @ replicate (length nk) None) (map_of (cols W) n))" for n
    by (simp add: out map_of_sort_columns map_of_set_col W2 map_of_ensure_today_col
        map_of_append_rows)
  moreover have "index (table out) = index W @ nk" by (simp add: out ix)
  ultimately show ?thesis using al len ix by auto
qed

lemma reindex_keys_subset:
  assumes "reindex S ix = Inr al"
  shows "map fst S = ix \<or> distinct (map fst S)"
  using assms by (auto simp: reindex_def split: if_splits)

lemma map2_comb_idem:
  "map2 comb (map2 comb old al) al = map2 comb old al"
proof (induction old arbitrary: al)
  case Nil
  then show ?case by simp
next
  case (Cons x xs)
  then show ?case by (cases al) (auto simp: comb_def)
qed

lemma count_list_distinct: "distinct xs \<Longrightarrow> count_list xs k \<le> 1"
  by (induction xs) (auto simp: count_list_0_iff)

lemma no_abnormal_distinct:
  "distinct (index W) \<Longrightarrow> \<not> abnormal_scan_raises W keys c"
  using count_list_distinct [of "index W"]
  by (auto simp: abnormal_scan_raises_def list_ex_iff not_less)

lemma distinct_index_appended:
  "distinct (index W) \<Longrightarrow> distinct (index W @ index_difference keys (index W))"
  by (auto simp: distinct_index_difference set_index_difference)

lemma patch_today_ind_fixpoint:
  assumes wf: "wf_frame W"
    and srt: "sort_columns to_dt W = W"
    and D: "D \<noteq> []"
    and na: "\<not> abnormal_scan_raises W (map row_key D) c"
    and keys: "set (map row_key D) \<subseteq> set (index W)"
    and T: "map_of (cols W) c = Some T"
    and al: "reindex (new_series_ind fs D) (index W) = Inr al"
    and fp: "map2 comb T al = T"
  shows "patch_today_ind fs to_dt W D c = Inr (to_csv W)"
proof -
  have "map row_key D \<noteq> []" using D by simp
  with keys have nk: "index_difference (map row_key D) (index W) = []"
    by (intro index_difference_Nil)
  have c: "c \<in> set (columns W)"
    using T map_of_None_columns [of W c] by auto
  have w2: "ensure_today_col (append_new_boards W (map fst (new_series_ind fs D))) c = W"
    using c by (simp add: append_new_boards_eq keys_new_series_ind nk append_rows_Nil
        ensure_today_col_def)
  have "length T = length al"
    using wf T al by (simp add: wf_frame_length reindex_length)
  with T have "write_today W c al = set_col W c (map2 comb T al)"
    by (rule write_today_eq)
  also have "\<dots> = W"
    using wf T by (simp add: fp set_col_same wf_frame_distinct)
  finally have wt: "write_today W c al = W" .
  have w1: "append_new_boards W (map fst (new_series_ind fs D)) = W"
    by (simp add: append_new_boards_eq keys_new_series_ind nk append_rows_Nil)
  show ?thesis
    unfolding patch_today_ind_def Let_def w1
    using D al na by (simp add: w2 [unfolded w1] wt srt keys_new_series_ind)
qed

lemma patch_today_ind_idem:
  assumes ok: "patch_today_ind fs to_dt W D c = Inr out" and wf: "wf_frame W"
    and dix: "distinct (index W)"
  shows "patch_today_ind fs to_dt (table out) D c = Inr out"
proof -
  define nk where "nk = index_difference (map row_key D) (index W)"
  define T where "T al = map2 comb (today_before W c (length nk)) al" for al
  from ok wf obtain al W2 where
    D: "D \<noteq> []" and
    W2: "W2 = ensure_today_col (append_rows W nk) c" and
    wf2: "wf_frame W2" and
    al: "reindex (new_series_ind fs D) (index W2) = Inr al" and
    out: "out = to_csv (sort_columns to_dt (set_col W2 c (T al)))"
    unfolding nk_def T_def by (rule patch_today_ind_Inr)
  define X where "X = set_col W2 c (T al)"
  have lenT: "length (T al) = length (index W2)"
    using wf al by (simp add: T_def length_today_before reindex_length W2)
  have wfX: "wf_frame X" unfolding X_def using wf2 lenT by (rule wf_set_col)
  have tab: "table out = sort_columns to_dt X" by (simp add: out X_def)
  have "set (map row_key D) \<subseteq> set (index W2)"
    by (auto simp: W2 nk_def set_index_difference)
  moreover have "wf_frame (sort_columns to_dt X)" using wfX by (rule wf_sort_columns)
  moreover have "sort_columns to_dt (sort_columns to_dt X) = sort_columns to_dt X"
    using wfX by (intro sort_columns_idem wf_frame_distinct)
  moreover have "map_of (cols (sort_columns to_dt X)) c = Some (T al)"
    by (simp add: map_of_sort_columns X_def map_of_set_col)
  moreover have "reindex (new_series_ind fs D) (index (sort_columns to_dt X)) = Inr al"
    using al by (simp add: X_def)
  moreover have "map2 comb (T al) al = T al"
    by (simp add: T_def map2_comb_idem)
  moreover have "\<not> abnormal_scan_raises (sort_columns to_dt X) (map row_key D) c"
    using distinct_index_appended [OF dix, of "map row_key D"]
    by (intro no_abnormal_distinct) (simp add: X_def W2 nk_def)
  ultimately have "patch_today_ind fs to_dt (sort_columns to_dt X) D c
      = Inr (to_csv (sort_columns to_dt X))"
    using D by (intro patch_today_ind_fixpoint) (simp_all add: X_def)
  then show ?thesis by (simp add: tab out X_def)
qed

lemma preserves_pastI:
  assumes "wf_frame W"
    and "take (length (index W)) (index W') = index W"
    and "\<And>n col. map_of (cols W) n = Some col \<Longrightarrow> n \<noteq> c \<Longrightarrow>
           \<exists>col'. map_of (cols W') n = Some col' \<and> take (length (index W)) col' = col"
  shows "preserves_past W c W'"
proof -
  have "fst p = c \<or> (case map_of (cols W') (fst p) of None \<Rightarrow> False
                     | Some col' \<Rightarrow> take (length (index W)) col' = snd p)"
    if p: "p \<in> set (cols W)" for p
  proof (cases "fst p = c")
    case True
    then show ?thesis by simp
  next
    case False
    from p assms(1) have "map_of (cols W) (fst p) = Some (snd p)"
      by (simp add: wf_frame_def columns_def map_of_eq_Some_iff)
    from assms(3) [OF this False] show ?thesis by auto
  qed
  with assms(2) show ?thesis by (simp add: preserves_past_def list_all_iff)
qed

lemma preserves_pastD:
  assumes "preserves_past W c W'" "map_of (cols W) n = Some col" "n \<noteq> c"
  shows "\<exists>col'. map_of (cols W') n = Some col' \<and> take (length (index W)) col' = col"
proof -
  from assms(2) have "(n, col) \<in> set (cols W)" by (rule map_of_SomeD)
  with assms(1, 3) show ?thesis
    by (force simp: preserves_past_def list_all_iff split: option.splits)
qed

lemma patch_today_ind_preserves_past:
  assumes ok: "patch_today_ind fs to_dt W D c = Inr out" and wf: "wf_frame W"
  shows "preserves_past W c (table out)"
proof -
  define nk where "nk = index_difference (map row_key D) (index W)"
  from patch_today_ind_out [OF ok wf]
  have ix: "index (table out) = index W @ nk"
    and cols: "\<And>n. n \<noteq> c \<Longrightarrow> map_of (cols (table out)) n =
         map_option (\<lambda>col. col @ replicate (length nk) None) (map_of (cols W) n)"
    by (auto simp: nk_def)
  show ?thesis
  proof (rule preserves_pastI [OF wf])
    show "take (length (index W)) (index (table out)) = index W" by (simp add: ix)
  next
    fix n col assume n: "map_of (cols W) n = Some col" "n \<noteq> c"
    then have "length col = length (index W)" using wf by (simp add: wf_frame_length)
    with n show "\<exists>col'. map_of (cols (table out)) n = Some col'
                   \<and> take (length (index W)) col' = col"
      by (simp add: cols)
  qed
qed

lemma patch_today_ind_today:
  assumes ok: "patch_today_ind fs to_dt W D c = Inr out" and wf: "wf_frame W"
    and old: "map_of (cols W) c = Some old"
    and dist: "distinct (map row_key D)"
  shows "\<exists>new. map_of (cols (table out)) c = Some new
           \<and> (\<forall>i<length (index W).
                 new ! i = comb (old ! i) (lookup (new_series_ind fs D) (index W ! i)))"
proof -
  define nk where "nk = index_difference (map row_key D) (index W)"
  define S where "S = new_series_ind fs D"
  from patch_today_ind_out [OF ok wf] obtain al where
    al: "reindex S (index W @ nk) = Inr al" and
    new: "map_of (cols (table out)) c = Some (map2 comb (today_before W c (length nk)) al)"
    by (auto simp: nk_def S_def)
  have "distinct (map fst S)" using dist by (simp add: S_def keys_new_series_ind)
  with al have al_eq: "al = map (lookup S) (index W @ nk)"
    by (simp add: reindex_distinct)
  have lo: "length old = length (index W)" using wf old by (rule wf_frame_length)
  have tb: "today_before W c (length nk) = old @ replicate (length nk) None"
    using old by (simp add: today_before_def)
  have "map2 comb (today_before W c (length nk)) al ! i
          = comb (old ! i) (lookup S (index W ! i))" if "i < length (index W)" for i
    using that lo by (simp add: tb al_eq nth_append)
  with new show ?thesis by (auto simp: S_def)
qed

lemma abnormal_scan_append_new_boards:
  "abnormal_scan_raises (append_new_boards W keys) keys c = abnormal_scan_raises W keys c"
  by (auto simp: append_new_boards_eq abnormal_scan_raises_def list_ex_iff
      set_index_difference count_list_0_iff)

lemma patch_today_ind_succeeds:
  assumes "distinct (map row_key D)"
  shows "(\<exists>out. patch_today_ind fs to_dt W D c = Inr out)
         \<longleftrightarrow> D \<noteq> [] \<and> \<not> abnormal_scan_raises W (map row_key D) c"
  using assms
  by (simp add: patch_today_ind_def Let_def reindex_distinct keys_new_series_ind
      abnormal_scan_append_new_boards)

lemma patch_today_ind_appends:
  assumes ok: "patch_today_ind fs to_dt W D c = Inr out" and wf: "wf_frame W"
  defines "nk \<equiv> index_difference (map row_key D) (index W)"
  shows "index (table out) = index W @ nk"
    and "distinct nk"
    and "set nk = set (map row_key D) - set (index W)"
    and "\<And>n col. map_of (cols W) n = Some col \<Longrightarrow> n \<noteq> c \<Longrightarrow>
           map_of (cols (table out)) n = Some (col @ replicate (length nk) None)"
    and "\<And>i old. i < length (index W) \<Longrightarrow> index W ! i \<notin> set (map row_key D) \<Longrightarrow>
           map_of (cols W) c = Some old \<Longrightarrow>
           \<exists>new. map_of (cols (table out)) c = Some new \<and> new ! i = old ! i"
proof -
  define S where "S = new_series_ind fs D"
  from patch_today_ind_out [OF ok wf] obtain al where
    al: "reindex S (index W @ nk) = Inr al" and
    len: "length al = length (index W) + length nk" and
    ix: "index (table out) = index W @ nk" and
    cols: "\<And>n. map_of (cols (table out)) n =
                 (if n = c then Some (map2 comb (today_before W c (length nk)) al)
                  else map_option (\<lambda>col. col @ replicate (length nk) None)
                         (map_of (cols W) n))"
    by (auto simp: nk_def S_def)
  show "index (table out) = index W @ nk" by (rule ix)
  show "distinct nk" by (simp add: nk_def distinct_index_difference)
  show "set nk = set (map row_key D) - set (index W)"
    by (simp add: nk_def set_index_difference)
  show "map_of (cols (table out)) n = Some (col @ replicate (length nk) None)"
    if "map_of (cols W) n = Some col" "n \<noteq> c" for n col
    using that by (simp add: cols)
  show "\<exists>new. map_of (cols (table out)) c = Some new \<and> new ! i = old ! i"
    if i: "i < length (index W)" and miss: "index W ! i \<notin> set (map row_key D)"
      and old: "map_of (cols W) c = Some old" for i old
  proof -
    have keys: "map fst S = map row_key D" by (simp add: S_def keys_new_series_ind)
    have ne: "map fst S \<noteq> index W @ nk"
    proof
      assume "map fst S = index W @ nk"
      then have "map row_key D ! i = index W ! i" using i by (simp add: keys nth_append)
      moreover have "i < length (map row_key D)"
        using \<open>map fst S = index W @ nk\<close> i keys by (metis length_append trans_less_add1)
      ultimately show False using miss by (metis nth_mem)
    qed
    with al have al_eq: "al = map (lookup S) (index W @ nk)"
      by (auto simp: reindex_def split: if_splits)
    have "map_of S (index W ! i) = None"
      using miss keys by (metis map_of_eq_None_iff set_map)
    then have ali: "al ! i = None" using i by (simp add: al_eq nth_append lookup_def)
    have lo: "length old = length (index W)" using wf old by (rule wf_frame_length)
    have tb: "today_before W c (length nk) = old @ replicate (length nk) None"
      using old by (simp add: today_before_def)
    have "map2 comb (today_before W c (length nk)) al ! i = old ! i"
      using i lo len ali by (simp add: tb nth_append comb_def nonempty_cell_def)
    then show ?thesis by (simp add: cols)
  qed
qed

lemma filter_key_distinct:
  "distinct (map fst S) \<Longrightarrow> map_of S k = Some v \<Longrightarrow> filter (\<lambda>kv. fst kv = k) S = [(k, v)]"
proof (induction S)
  case Nil
  then show ?case by simp
next
  case (Cons x S)
  show ?case
  proof (cases "fst x = k")
    case True
    with Cons.prems have "filter (\<lambda>kv. fst kv = k) S = []"
      by (auto simp: filter_empty_conv image_iff)
    with True Cons.prems show ?thesis by (cases x) auto
  next
    case False
    with Cons show ?thesis by (cases x) auto
  qed
qed

lemma nth_filter_map:
  "map (\<lambda>p. f (xs ! p)) (filter (\<lambda>p. Q (xs ! p)) [0..<length xs]) = map f (filter Q xs)"
proof -
  have "map f (filter Q xs) = map f (filter Q (map (\<lambda>p. xs ! p) [0..<length xs]))"
    by (simp add: map_nth)
  also have "\<dots> = map (\<lambda>p. f (xs ! p)) (filter (\<lambda>p. Q (xs ! p)) [0..<length xs])"
    by (simp add: filter_map o_def)
  finally show ?thesis by simp
qed

lemma aligned_mask_entry:
  assumes "distinct (map fst S)" "k \<in> fst ` set S"
  shows "map (\<lambda>p. map (\<lambda>kv. P (snd kv)) S ! p)
           (filter (\<lambda>p. map fst S ! p = k) [0..<length (map fst S)])
         = [P (lookup S k)]"
proof -
  from assms(2) obtain v where v: "map_of S k = Some v"
    by (metis domD dom_map_of_conv_image_fst)
  have "map (\<lambda>p. map (\<lambda>kv. P (snd kv)) S ! p)
           (filter (\<lambda>p. map fst S ! p = k) [0..<length (map fst S)])
      = map (\<lambda>p. P (snd (S ! p))) (filter (\<lambda>p. fst (S ! p) = k) [0..<length S])"
    by (auto intro!: map_cong filter_cong)
  also have "\<dots> = map (\<lambda>kv. P (snd kv)) (filter (\<lambda>kv. fst kv = k) S)"
    by (rule nth_filter_map)
  also have "\<dots> = [P (lookup S k)]"
    using filter_key_distinct [OF assms(1) v] v by (simp add: lookup_def)
  finally show ?thesis .
qed

lemma check_bool_indexer_distinct:
  assumes d: "distinct (map fst S)" and sub: "set ix \<subseteq> fst ` set S"
  shows "check_bool_indexer ix (map fst S) (map (\<lambda>kv. P (snd kv)) S)
         = Inr (map (\<lambda>k. P (lookup S k)) ix)"
proof (cases "map fst S = ix")
  case True
  have "map (\<lambda>k. P (lookup S k)) (map fst S) = map P (map (lookup S) (map fst S))"
    by simp
  also have "\<dots> = map (\<lambda>kv. P (snd kv)) S"
    by (simp only: lookup_distinct [OF d]) simp
  finally show ?thesis using True by (simp add: check_bool_indexer_def)
next
  case False
  have ex: "\<not> list_ex (\<lambda>k. k \<notin> set (map fst S)) ix"
    using sub by (auto simp: list_ex_iff)
  have res: "map (\<lambda>p. map (\<lambda>kv. P (snd kv)) S ! p)
          (concat (map (\<lambda>k. filter (\<lambda>p. map fst S ! p = k) [0..<length (map fst S)]) ix))
        = map (\<lambda>k. P (lookup S k)) ix"
    using sub
  proof (induction ix)
    case Nil
    then show ?case by simp
  next
    case (Cons k ix)
    then have "k \<in> fst ` set S" by simp
    from aligned_mask_entry [OF d this, of P] Cons show ?case by simp
  qed
  show ?thesis
    unfolding check_bool_indexer_def Let_def res
    using False ex by simp
qed

lemma check_bool_indexer_missing:
  assumes "\<not> set ix \<subseteq> set keys"
  shows "check_bool_indexer ix keys m = Inl IndexingError"
proof -
  from assms have "keys \<noteq> ix" by auto
  moreover from assms have "list_ex (\<lambda>k. k \<notin> set keys) ix" by (auto simp: list_ex_iff)
  ultimately show ?thesis by (simp add: check_bool_indexer_def)
qed

lemma check_bool_indexer_length:
  "check_bool_indexer ix (map fst S) (map f S) = Inr m \<Longrightarrow> length m = length ix"
  by (auto simp: check_bool_indexer_def Let_def split: if_splits)

lemma lookup_filter_nonempty:
  "distinct (map fst S) \<Longrightarrow> nonempty_cell (lookup S k) \<Longrightarrow>
   lookup (filter (\<lambda>kv. nonempty_cell (snd kv)) S) k = lookup S k"
proof (induction S)
  case Nil
  then show ?case by simp
next
  case (Cons x S)
  obtain a b where x: "x = (a, b)" by (cases x)
  show ?case
  proof (cases "a = k")
    case True
    with Cons.prems x show ?thesis by (simp add: lookup_def)
  next
    case False
    with Cons x show ?thesis by (simp add: lookup_def)
  qed
qed

lemma select_map: "select (map P xs) xs = filter P xs"
  by (induction xs) (auto simp: select_def)

lemma select_map_snd:
  "select (map (\<lambda>kv. P (snd kv)) S) (map g S) = map g (filter (\<lambda>kv. P (snd kv)) S)"
  by (induction S) (auto simp: select_def)

lemma loc_set_filter:
  "length old = length ix \<Longrightarrow>
   loc_set (map P ix) old (map f (filter P ix)) = map2 (\<lambda>x k. if P k then f k else x) old ix"
proof (induction ix arbitrary: old)
  case Nil
  then show ?case by simp
next
  case (Cons k ix)
  then obtain x xs where old: "old = x # xs" by (cases old) auto
  with Cons have "length xs = length ix" by simp
  from Cons.IH [OF this] show ?case by (simp add: old)
qed

lemma loc_set_restore:
  "loc_set (map (\<lambda>kv. P (snd kv)) S) (map snd S) (map snd (filter (\<lambda>kv. P (snd kv)) S))
   = map snd S"
  by (induction S) auto

lemma distinct_filter_keys:
  "distinct (map fst S) \<Longrightarrow> distinct (map fst (filter Q S))"
  by (induction S) (auto simp: image_iff)

lemma length_new_series_fetch [simp]: "length (new_series_fetch D) = length D"
  by (simp add: new_series_fetch_def)

lemma length_new_series_ind [simp]: "length (new_series_ind fs D) = length D"
  by (simp add: new_series_ind_def)

lemma aligned_vals:
  assumes d: "distinct (map fst S)"
  shows "reindex (filter (\<lambda>kv. nonempty_cell (snd kv)) S)
           (select (map (\<lambda>k. nonempty_cell (lookup S k)) ix) ix)
         = Inr (map (lookup S) (filter (\<lambda>k. nonempty_cell (lookup S k)) ix))"
proof -
  let ?S' = "filter (\<lambda>kv. nonempty_cell (snd kv)) S"
  let ?P = "\<lambda>k. nonempty_cell (lookup S k)"
  have "distinct (map fst ?S')" using d by (rule distinct_filter_keys)
  then have "reindex ?S' (filter ?P ix) = Inr (map (lookup ?S') (filter ?P ix))"
    by (rule reindex_distinct)
  also have "map (lookup ?S') (filter ?P ix) = map (lookup S) (filter ?P ix)"
    by (rule map_cong [OF refl]) (simp add: lookup_filter_nonempty [OF d])
  finally show ?thesis by (simp only: select_map)
qed

lemma map2_comb_lookup:
  "map2 (\<lambda>x k. if nonempty_cell (f k) then f k else x) old ix = map2 comb old (map f ix)"
proof -
  have "map2 comb old (map f ix) = map (\<lambda>(x, k). comb x (f k)) (zip old ix)"
    by (simp add: zip_map2 split_def o_def)
  then show ?thesis by (simp add: comb_def)
qed

lemma patch_today_fetch_present:
  assumes D: "D \<noteq> []" and dist: "distinct (map row_key D)"
    and old: "map_of (cols W) c = Some old" and wf: "wf_frame W"
  shows "patch_today_fetch to_dt W D c =
     (if set (index W) \<subseteq> set (map row_key D)
      then Inr (to_csv (sort_columns to_dt
             (set_col W c (map2 comb old (map (lookup (new_series_fetch D)) (index W))))))
      else Inl IndexingError)"
proof -
  define S where "S = new_series_fetch D"
  let ?P = "\<lambda>k. nonempty_cell (lookup S k)"
  have keys: "map fst S = map row_key D" by (simp add: S_def keys_new_series_fetch)
  have d: "distinct (map fst S)" using dist keys by simp
  have lo: "length old = length (index W)" using wf old by (rule wf_frame_length)
  show ?thesis
  proof (cases "set (index W) \<subseteq> set (map row_key D)")
    case True
    then have "set (index W) \<subseteq> fst ` set S" using keys by (metis set_map)
    from check_bool_indexer_distinct [OF d this, of nonempty_cell]
    have m: "check_bool_indexer (index W) (map fst S) (map (\<lambda>kv. nonempty_cell (snd kv)) S)
              = Inr (map ?P (index W))" .
    have "loc_set (map ?P (index W)) old (map (lookup S) (filter ?P (index W)))
            = map2 comb old (map (lookup S) (index W))"
      using lo by (simp only: loc_set_filter map2_comb_lookup)
    with True D old show ?thesis
      unfolding patch_today_fetch_def Let_def S_def [symmetric]
      by (simp add: m [unfolded keys] aligned_vals [OF d] keys)
  next
    case False
    then have "check_bool_indexer (index W) (map fst S) (map (\<lambda>kv. nonempty_cell (snd kv)) S)
                 = Inl IndexingError"
      unfolding keys by (rule check_bool_indexer_missing)
    with False D old show ?thesis
      unfolding patch_today_fetch_def Let_def S_def [symmetric]
      by simp
  qed
qed

lemma patch_today_fetch_absent:
  assumes D: "D \<noteq> []" and dist: "distinct (map row_key D)"
    and none: "map_of (cols W) c = None"
  shows "patch_today_fetch to_dt W D c =
     Inr (to_csv (sort_columns to_dt
       (if index W = []
        then set_col \<lparr>index = map row_key D,
                      cols = map (\<lambda>p. (fst p, replicate (length D) None)) (cols W)\<rparr>
               c (map snd (new_series_fetch D))
        else set_col W c (map (lookup (new_series_fetch D)) (index W)))))"
proof -
  have "distinct (map fst (new_series_fetch D))"
    using dist by (simp add: keys_new_series_fetch)
  then have r: "reindex (new_series_fetch D) ix = Inr (map (lookup (new_series_fetch D)) ix)"
    for ix by (rule reindex_distinct)
  have ne: "new_series_fetch D \<noteq> []" using D by (metis length_0_conv length_new_series_fetch)
  show ?thesis
    unfolding patch_today_fetch_def Let_def setitem_series_def
    using D none ne by (simp add: r keys_new_series_fetch)
qed

lemma patch_today_fetch_today:
  assumes ok: "patch_today_fetch to_dt W D c = Inr out" and wf: "wf_frame W"
    and old: "map_of (cols W) c = Some old"
    and dist: "distinct (map row_key D)"
  shows "\<exists>new. map_of (cols (table out)) c = Some new
           \<and> (\<forall>i<length (index W).
                 new ! i = comb (old ! i) (lookup (new_series_fetch D) (index W ! i)))"
proof -
  have D: "D \<noteq> []" using ok by (auto simp: patch_today_fetch_def)
  have lo: "length old = length (index W)" using wf old by (rule wf_frame_length)
  from ok have "out = to_csv (sort_columns to_dt
             (set_col W c (map2 comb old (map (lookup (new_series_fetch D)) (index W)))))"
    unfolding patch_today_fetch_present [OF D dist old wf] by (simp split: if_splits)
  then have "map_of (cols (table out)) c
      = Some (map2 comb old (map (lookup (new_series_fetch D)) (index W)))"
    by (simp add: map_of_sort_columns map_of_set_col)
  then show ?thesis using lo by simp
qed

lemma patch_today_fetch_Inr:
  assumes ok: "patch_today_fetch to_dt W D c = Inr out" and wf: "wf_frame W"
  obtains (grown) "map_of (cols W) c = None" "index W = []"
      "out = to_csv (sort_columns to_dt
         (set_col \<lparr>index = map row_key D,
                   cols = map (\<lambda>p. (fst p, replicate (length D) None)) (cols W)\<rparr>
            c (map snd (new_series_fetch D))))"
  | (added) col where "map_of (cols W) c = None"
      "reindex (new_series_fetch D) (index W) = Inr col"
      "out = to_csv (sort_columns to_dt (set_col W c col))"
  | (merged) old m vals where "map_of (cols W) c = Some old"
      "check_bool_indexer (index W) (map row_key D)
         (map (\<lambda>kv. nonempty_cell (snd kv)) (new_series_fetch D)) = Inr m"
      "reindex (filter (\<lambda>kv. nonempty_cell (snd kv)) (new_series_fetch D))
         (select m (index W)) = Inr vals"
      "out = to_csv (sort_columns to_dt (set_col W c (loc_set m old vals)))"
proof -
  have D: "D \<noteq> []" using ok by (auto simp: patch_today_fetch_def)
  show thesis
  proof (cases "map_of (cols W) c")
    case None
    show ?thesis
    proof (cases "index W = [] \<and> new_series_fetch D \<noteq> []")
      case True
      with ok D None have "out = to_csv (sort_columns to_dt
         (set_col \<lparr>index = map row_key D,
                   cols = map (\<lambda>p. (fst p, replicate (length D) None)) (cols W)\<rparr>
            c (map snd (new_series_fetch D))))"
        by (auto simp: patch_today_fetch_def Let_def setitem_series_def
            keys_new_series_fetch)
      with None True show ?thesis by (intro grown) auto
    next
      case False
      with ok D None obtain col where
        "reindex (new_series_fetch D) (index W) = Inr col"
        "out = to_csv (sort_columns to_dt (set_col W c col))"
        by (auto simp: patch_today_fetch_def Let_def setitem_series_def split: sum.splits)
      with None show ?thesis by (intro added)
    qed
  next
    case (Some old)
    with ok D obtain m vals where
      "check_bool_indexer (index W) (map row_key D)
         (map (\<lambda>kv. nonempty_cell (snd kv)) (new_series_fetch D)) = Inr m"
      "reindex (filter (\<lambda>kv. nonempty_cell (snd kv)) (new_series_fetch D))
         (select m (index W)) = Inr vals"
      "out = to_csv (sort_columns to_dt (set_col W c (loc_set m old vals)))"
      by (auto simp: patch_today_fetch_def Let_def keys_new_series_fetch split: sum.splits)
    with Some show ?thesis by (intro merged)
  qed
qed

lemma patch_today_fetch_preserves_past:
  assumes ok: "patch_today_fetch to_dt W D c = Inr out" and wf: "wf_frame W"
  shows "preserves_past W c (table out)"
  using ok wf
proof (cases rule: patch_today_fetch_Inr)
  case grown
  show ?thesis
  proof (rule preserves_pastI [OF wf])
    show "take (length (index W)) (index (table out)) = index W"
      using grown by simp
  next
    fix n col assume n: "map_of (cols W) n = Some col" "n \<noteq> c"
    then have l: "length col = 0" using wf grown by (simp add: wf_frame_length)
    have "map_of (map (\<lambda>p. (fst p, f (snd p))) xs) n = map_option f (map_of xs n)"
      for f :: "cell list \<Rightarrow> cell list" and xs
      by (induction xs) auto
    from this [of "\<lambda>_. replicate (length D) None" "cols W"] n l grown
    show "\<exists>col'. map_of (cols (table out)) n = Some col'
                   \<and> take (length (index W)) col' = col"
      by (simp add: map_of_sort_columns map_of_set_col)
  qed
next
  case (added col)
  show ?thesis
  proof (rule preserves_pastI [OF wf])
    show "take (length (index W)) (index (table out)) = index W"
      using added by simp
  next
    fix n col' assume n: "map_of (cols W) n = Some col'" "n \<noteq> c"
    then have "length col' = length (index W)" using wf by (simp add: wf_frame_length)
    with n added show "\<exists>col''. map_of (cols (table out)) n = Some col''
                   \<and> take (length (index W)) col'' = col'"
      by (simp add: map_of_sort_columns map_of_set_col)
  qed
next
  case (merged old m vals)
  show ?thesis
  proof (rule preserves_pastI [OF wf])
    show "take (length (index W)) (index (table out)) = index W"
      using merged by simp
  next
    fix n col' assume n: "map_of (cols W) n = Some col'" "n \<noteq> c"
    then have "length col' = length (index W)" using wf by (simp add: wf_frame_length)
    with n merged show "\<exists>col''. map_of (cols (table out)) n = Some col''
                   \<and> take (length (index W)) col'' = col'"
      by (simp add: map_of_sort_columns map_of_set_col)
  qed
qed

lemma realign_same:
  assumes T: "reindex S ix = Inr T"
    and m: "check_bool_indexer ix (map fst S) (map (\<lambda>kv. nonempty_cell (snd kv)) S) = Inr m"
    and vals: "reindex (filter (\<lambda>kv. nonempty_cell (snd kv)) S) (select m ix) = Inr vals"
  shows "loc_set m T vals = T"
proof (cases "map fst S = ix")
  case True
  with T have T_eq: "T = map snd S" by (simp add: reindex_def)
  from m True have m_eq: "m = map (\<lambda>kv. nonempty_cell (snd kv)) S"
    by (simp add: check_bool_indexer_def)
  have "select m ix = map fst (filter (\<lambda>kv. nonempty_cell (snd kv)) S)"
    unfolding m_eq True [symmetric] by (rule select_map_snd)
  with vals have "vals = map snd (filter (\<lambda>kv. nonempty_cell (snd kv)) S)"
    by (simp add: reindex_def)
  then show ?thesis by (simp add: T_eq m_eq loc_set_restore)
next
  case False
  let ?P = "\<lambda>k. nonempty_cell (lookup S k)"
  from T False have d: "distinct (map fst S)" and T_eq: "T = map (lookup S) ix"
    by (auto simp: reindex_def split: if_splits)
  have sub: "set ix \<subseteq> fst ` set S"
  proof (rule ccontr)
    assume "\<not> set ix \<subseteq> fst ` set S"
    then have "\<not> set ix \<subseteq> set (map fst S)" by simp
    from check_bool_indexer_missing [OF this] m show False by simp
  qed
  from check_bool_indexer_distinct [OF d sub, of nonempty_cell] m
  have m_eq: "m = map ?P ix" by simp
  from vals aligned_vals [OF d, of ix]
  have v_eq: "vals = map (lookup S) (filter ?P ix)" by (simp add: m_eq)
  have "loc_set (map ?P ix) (map (lookup S) ix) (map (lookup S) (filter ?P ix))
      = map2 (\<lambda>x k. if ?P k then lookup S k else x) (map (lookup S) ix) ix"
    by (rule loc_set_filter) simp
  also have "\<dots> = map (lookup S) ix"
    by (induction ix) auto
  finally show ?thesis by (simp add: T_eq m_eq v_eq)
qed

lemma to_csv_table: "out = to_csv X \<Longrightarrow> to_csv (table out) = out"
  by simp

lemma patch_today_fetch_fixpoint:
  assumes wf: "wf_frame W1"
    and srt: "sort_columns to_dt W1 = W1"
    and T: "map_of (cols W1) c = Some T"
    and again: "patch_today_fetch to_dt W1 D c = Inr out'"
    and same: "\<And>m vals.
        check_bool_indexer (index W1) (map row_key D)
          (map (\<lambda>kv. nonempty_cell (snd kv)) (new_series_fetch D)) = Inr m \<Longrightarrow>
        reindex (filter (\<lambda>kv. nonempty_cell (snd kv)) (new_series_fetch D))
          (select m (index W1)) = Inr vals \<Longrightarrow> loc_set m T vals = T"
  shows "out' = to_csv W1"
  using again wf
proof (cases rule: patch_today_fetch_Inr)
  case grown
  with T show ?thesis by simp
next
  case (added col)
  with T show ?thesis by simp
next
  case (merged old m vals)
  with T have "old = T" by simp
  with merged same have "loc_set m old vals = T" by simp
  moreover have "set_col W1 c T = W1"
    using wf T by (simp add: set_col_same wf_frame_distinct)
  ultimately show ?thesis using merged srt by simp
qed

lemma patch_today_fetch_idem:
  assumes ok: "patch_today_fetch to_dt W D c = Inr out" and wf: "wf_frame W"
    and again: "patch_today_fetch to_dt (table out) D c = Inr out'"
  shows "out' = out"
proof -
  define S where "S = new_series_fetch D"
  have keys: "map fst S = map row_key D" by (simp add: S_def keys_new_series_fetch)
  have "\<exists>X T. out = to_csv (sort_columns to_dt X) \<and> wf_frame X
      \<and> map_of (cols X) c = Some T
      \<and> (\<forall>m vals. check_bool_indexer (index X) (map fst S)
                      (map (\<lambda>kv. nonempty_cell (snd kv)) S) = Inr m \<longrightarrow>
            reindex (filter (\<lambda>kv. nonempty_cell (snd kv)) S) (select m (index X)) = Inr vals
            \<longrightarrow> loc_set m T vals = T)"
    using ok wf
  proof (cases rule: patch_today_fetch_Inr)
    case grown
    define X0 where "X0 = \<lparr>index = map row_key D,
        cols = map (\<lambda>p. (fst p, replicate (length D) None)) (cols W)\<rparr>"
    define X where "X = set_col X0 c (map snd S)"
    have wf0: "wf_frame X0"
      using wf by (auto simp: wf_frame_def X0_def columns_def o_def list_all_iff)
    have "wf_frame X" unfolding X_def
      by (rule wf_set_col [OF wf0]) (simp add: X0_def S_def)
    moreover have "map_of (cols X) c = Some (map snd S)" by (simp add: X_def map_of_set_col)
    moreover have "reindex S (index X) = Inr (map snd S)"
      by (simp add: X_def X0_def reindex_def keys)
    moreover have "out = to_csv (sort_columns to_dt X)"
      using grown by (simp add: X_def X0_def S_def)
    ultimately show ?thesis using realign_same [of S "index X" "map snd S"] by blast
  next
    case (added col)
    define X where "X = set_col W c col"
    have "length col = length (index W)" using added by (simp add: reindex_length)
    then have "wf_frame X" unfolding X_def by (intro wf_set_col wf)
    moreover have "map_of (cols X) c = Some col" by (simp add: X_def map_of_set_col)
    moreover have "reindex S (index X) = Inr col" using added by (simp add: X_def S_def)
    moreover have "out = to_csv (sort_columns to_dt X)" using added by (simp add: X_def)
    ultimately show ?thesis using realign_same [of S "index X" col] by blast
  next
    case (merged old m vals)
    define X where "X = set_col W c (loc_set m old vals)"
    have "length old = length (index W)" using wf merged by (simp add: wf_frame_length)
    then have "wf_frame X" unfolding X_def by (intro wf_set_col wf) (simp add: length_loc_set)
    moreover have "map_of (cols X) c = Some (loc_set m old vals)"
      by (simp add: X_def map_of_set_col)
    moreover have "out = to_csv (sort_columns to_dt X)" using merged by (simp add: X_def)
    moreover have "loc_set m' (loc_set m old vals) vals' = loc_set m old vals"
      if "check_bool_indexer (index X) (map fst S)
            (map (\<lambda>kv. nonempty_cell (snd kv)) S) = Inr m'"
        "reindex (filter (\<lambda>kv. nonempty_cell (snd kv)) S) (select m' (index X)) = Inr vals'"
      for m' vals'
    proof -
      from that(1) merged have "m' = m"
        by (simp add: X_def S_def keys_new_series_fetch)
      moreover from that(2) merged this have "vals' = vals" by (simp add: X_def S_def)
      ultimately show ?thesis by (simp add: loc_set_idem)
    qed
    ultimately show ?thesis by blast
  qed
  then obtain X T where
    out: "out = to_csv (sort_columns to_dt X)" and wfX: "wf_frame X"
    and T: "map_of (cols X) c = Some T"
    and same: "\<And>m vals. check_bool_indexer (index X) (map fst S)
                      (map (\<lambda>kv. nonempty_cell (snd kv)) S) = Inr m \<Longrightarrow>
            reindex (filter (\<lambda>kv. nonempty_cell (snd kv)) S) (select m (index X)) = Inr vals
            \<Longrightarrow> loc_set m T vals = T"
    by blast
  define W1 where "W1 = sort_columns to_dt X"
  have tab: "table out = W1" by (simp add: out W1_def)
  have "out' = to_csv W1"
  proof (rule patch_today_fetch_fixpoint)
    show "wf_frame W1" unfolding W1_def using wfX by (rule wf_sort_columns)
    show "sort_columns to_dt W1 = W1"
      unfolding W1_def using wfX by (intro sort_columns_idem wf_frame_distinct)
    show "map_of (cols W1) c = Some T" by (simp add: W1_def map_of_sort_columns T)
    show "patch_today_fetch to_dt W1 D c = Inr out'" using again by (simp add: tab)
  next
    fix m vals
    assume "check_bool_indexer (index W1) (map row_key D)
          (map (\<lambda>kv. nonempty_cell (snd kv)) (new_series_fetch D)) = Inr m"
       "reindex (filter (\<lambda>kv. nonempty_cell (snd kv)) (new_series_fetch D))
          (select m (index W1)) = Inr vals"
    then show "loc_set m T vals = T"
      using same [of m vals] by (simp add: W1_def keys [symmetric] S_def)
  qed
  then show ?thesis by (simp add: out W1_def)
qed

lemma upt_numeral_eval: "[m..<numeral k] = (if m < numeral k then m # [Suc m..<numeral k] else [])"
  by (simp add: upt_rec)

lemma demo_ranks: "today_ranks demo_today = [Some 2, Some 1, None]"
  by (simp add: today_ranks_def demo_today_def board_def notna_def none_or_nan_def
      rank_first_desc_def rank_order_def upt_rec [of _ "numeral _"] upt_rec [of _ "Suc _"] eval_nat_numeral)

lemma demo_series_fetch:
  "new_series_fetch demo_today =
     [(''BK3|C'', Some ''2|1.00|5''), (''BK1|A'', Some ''1|2.00|11''), (''BK2|B'', Some [])]"
  by (simp add: new_series_fetch_def demo_ranks)
     (simp add: demo_today_def board_def row_key_def fmt_eval)

lemma demo_series_ind:
  "new_series_ind demo_float_str demo_today =
     [(''BK3|C'', Some ''2|1.00|5||||''), (''BK1|A'', Some ''1|2.00|11||||''), (''BK2|B'', Some [])]"
  by (simp add: new_series_ind_def demo_ranks)
     (simp add: demo_today_def board_def row_key_def fmt_eval)

lemmas patch_eval = reindex_def lookup_def check_bool_indexer_def select_def set_col_def
  setitem_series_def date_pairs_def date_cols_def other_cols_def take_cols_def sort_columns_def
  to_csv_def unique_def index_difference_def append_rows_def append_new_boards_def
  ensure_today_col_def write_today_def nonempty_cell_def columns_def demo_to_dt_def demo_wide_def
  abnormal_scan_raises_def Let_def

lemma demo_patch_ind:
  "patch_today_ind demo_float_str demo_to_dt demo_wide demo_today ''2024-01-03'' =
   Inr \<lparr>encoding = ''utf-8-sig'', index_label = ''row_key'',
        table = \<lparr>index = [''BK1|A'', ''BK2|B'', ''BK3|C''],
                  cols = [(''2024-01-02'', [Some ''2|0.10|9'', None, None]),
                          (''2024-01-03'', [Some ''1|2.00|11||||'', Some ''2|0.50|20'',
                                            Some ''2|1.00|5||||'']),
                          (''note'', [None, Some ''x'', None])]\<rparr>\<rparr>"
  unfolding patch_today_ind_def demo_series_ind
  by (simp add: patch_eval demo_today_def)

lemma upt_3: "[0..<3] = [0, 1, 2]"
  by (simp add: upt_rec [of _ "numeral _"] upt_rec [of _ "Suc _"] eval_nat_numeral)

lemma demo_mask:
  "check_bool_indexer [''BK1|A'', ''BK2|B''] [''BK3|C'', ''BK1|A'', ''BK2|B'']
     [True, True, False] = Inr [True, False]"
  by (simp add: check_bool_indexer_def upt_3)

lemma demo_patch_fetch:
  "patch_today_fetch demo_to_dt demo_wide demo_today ''2024-01-03'' =
   Inr \<lparr>encoding = ''utf-8-sig'', index_label = ''row_key'',
        table = \<lparr>index = [''BK1|A'', ''BK2|B''],
                  cols = [(''2024-01-02'', [Some ''2|0.10|9'', None]),
                          (''2024-01-03'', [Some ''1|2.00|11'', Some ''2|0.50|20'']),
                          (''note'', [None, Some ''x''])]\<rparr>\<rparr>"
  unfolding patch_today_fetch_def demo_series_fetch
  by (simp add: demo_wide_def nonempty_cell_def demo_mask demo_today_def Let_def)
     (simp add: reindex_def lookup_def select_def set_col_def date_pairs_def date_cols_def
        other_cols_def take_cols_def sort_columns_def to_csv_def columns_def demo_to_dt_def
        demo_wide_def)

section \<open>Evaluated examples\<close>

lemma wf_demo_wide: "wf_frame demo_wide"
  by (simp add: wf_frame_def demo_wide_def columns_def)

lemma distinct_demo_today: "distinct (map row_key demo_today)"
  by (simp add: demo_today_def board_def row_key_def)

lemma demo_partial_ranks: "today_ranks demo_partial = [Some 2, Some 1]"
  by (simp add: today_ranks_def demo_partial_def board_def notna_def none_or_nan_def
      rank_first_desc_def rank_order_def upt_rec [of _ "numeral _"] upt_rec [of _ "Suc _"] eval_nat_numeral)

lemma demo_partial_series_fetch:
  "new_series_fetch demo_partial =
     [(''BK3|C'', Some ''2|1.00|5''), (''BK1|A'', Some ''1|2.00|11'')]"
  by (simp add: new_series_fetch_def demo_partial_ranks)
     (simp add: demo_partial_def board_def row_key_def fmt_eval)

lemma demo_partial_raises:
  "patch_today_fetch demo_to_dt demo_wide demo_partial ''2024-01-03'' = Inl IndexingError"
  unfolding patch_today_fetch_def demo_partial_series_fetch
  by (simp add: demo_wide_def demo_partial_def check_bool_indexer_def Let_def)

lemma demo_partial_first_call:
  "patch_today_fetch demo_to_dt demo_wide demo_partial ''2024-01-01'' =
       Inr \<lparr>encoding = ''utf-8-sig'', index_label = ''row_key'',
            table = \<lparr>index = [''BK1|A'', ''BK2|B''],
                      cols = [(''2024-01-01'', [Some ''1|2.00|11'', None]),
                              (''2024-01-02'', [Some ''2|0.10|9'', None]),
                              (''2024-01-03'', [Some ''1|1.00|10'', Some ''2|0.50|20'']),
                              (''note'', [None, Some ''x''])]\<rparr>\<rparr>"
  unfolding patch_today_fetch_def demo_partial_series_fetch
  by (simp add: demo_wide_def demo_partial_def Let_def setitem_series_def patch_eval)

lemma demo_partial_second_call:
  "patch_today_fetch demo_to_dt
         \<lparr>index = [''BK1|A'', ''BK2|B''],
          cols = [(''2024-01-01'', [Some ''1|2.00|11'', None]),
                  (''2024-01-02'', [Some ''2|0.10|9'', None]),
                  (''2024-01-03'', [Some ''1|1.00|10'', Some ''2|0.50|20'']),
                  (''note'', [None, Some ''x''])]\<rparr>
         demo_partial ''2024-01-01'' = Inl IndexingError"
  unfolding patch_today_fetch_def demo_partial_series_fetch
  by (simp add: demo_partial_def check_bool_indexer_def Let_def)

section \<open>The claims about patch_today\<close>

text \<open>
  Claim C1: \<open>patch_today\<close> leaves the today cell of a board unchanged when the board's
  new cell is missing (the snapshot lacks the board) or the empty string, and overwrites
  it with the new cell otherwise. For a table with a today column \<open>c\<close> and a snapshot
  that lists every board once, the today cell of every row \<open>i\<close> of the table is
  \<open>comb\<close> of the old cell and the board's new cell, in both files; and
  \<open>patch_today\<close> of \<open>bk_data_ind.py\<close> does write a table for such a snapshot,
  unless the snapshot is empty or the table repeats a row key that the snapshot lacks
  (the scan for abnormal boards then raises \<open>ValueError\<close>).
\<close>

theorem patch_today_keeps_old_on_empty:
  assumes wf: "wf_frame W" and dist: "distinct (map row_key D)"
    and old: "map_of (cols W) c = Some old" and i: "i < length (index W)"
  shows "(patch_today_ind fs to_dt W D c = Inr out \<longrightarrow>
            (\<exists>new. map_of (cols (table out)) c = Some new
               \<and> new ! i = comb (old ! i) (lookup (new_series_ind fs D) (index W ! i))))
       \<and> (patch_today_fetch to_dt W D c = Inr out \<longrightarrow>
            (\<exists>new. map_of (cols (table out)) c = Some new
               \<and> new ! i = comb (old ! i) (lookup (new_series_fetch D) (index W ! i))))
       \<and> ((\<exists>out'. patch_today_ind fs to_dt W D c = Inr out')
            \<longleftrightarrow> D \<noteq> [] \<and> \<not> abnormal_scan_raises W (map row_key D) c)"
proof (intro conjI impI)
  assume "patch_today_ind fs to_dt W D c = Inr out"
  from patch_today_ind_today [OF this wf old dist] i
  show "\<exists>new. map_of (cols (table out)) c = Some new
          \<and> new ! i = comb (old ! i) (lookup (new_series_ind fs D) (index W ! i))"
    by blast
next
  assume "patch_today_fetch to_dt W D c = Inr out"
  from patch_today_fetch_today [OF this wf old dist] i
  show "\<exists>new. map_of (cols (table out)) c = Some new
          \<and> new ! i = comb (old ! i) (lookup (new_series_fetch D) (index W ! i))"
    by blast
next
  show "(\<exists>out'. patch_today_ind fs to_dt W D c = Inr out')
        \<longleftrightarrow> D \<noteq> [] \<and> \<not> abnormal_scan_raises W (map row_key D) c"
    using dist by (rule patch_today_ind_succeeds)
qed

theorem patch_today_keeps_old_on_empty_witness:
  "wf_frame demo_wide \<and> distinct (map row_key demo_today)
   \<and> map_of (cols demo_wide) ''2024-01-03'' = Some [Some ''1|1.00|10'', Some ''2|0.50|20'']
   \<and> lookup (new_series_ind demo_float_str demo_today) ''BK2|B'' = Some []
   \<and> (\<exists>out new. patch_today_ind demo_float_str demo_to_dt demo_wide demo_today ''2024-01-03'' = Inr out
         \<and> map_of (cols (table out)) ''2024-01-03'' = Some new
         \<and> new ! 1 = Some ''2|0.50|20'')
   \<and> (\<exists>out new. patch_today_fetch demo_to_dt demo_wide demo_today ''2024-01-03'' = Inr out
         \<and> map_of (cols (table out)) ''2024-01-03'' = Some new
         \<and> new ! 1 = Some ''2|0.50|20'')"
proof -
  have old: "map_of (cols demo_wide) ''2024-01-03'' = Some [Some ''1|1.00|10'', Some ''2|0.50|20'']"
    by (simp add: demo_wide_def)
  have i: "1 < length (index demo_wide)" by (simp add: demo_wide_def)
  have ix: "index demo_wide ! 1 = ''BK2|B''" by (simp add: demo_wide_def)
  have l1: "lookup (new_series_ind demo_float_str demo_today) ''BK2|B'' = Some []"
    by (simp add: demo_series_ind lookup_def)
  have l2: "lookup (new_series_fetch demo_today) ''BK2|B'' = Some []"
    by (simp add: demo_series_fetch lookup_def)
  note inst = patch_today_keeps_old_on_empty [OF wf_demo_wide distinct_demo_today old i,
      where to_dt = demo_to_dt and fs = demo_float_str]
  have a: "\<exists>out new. patch_today_ind demo_float_str demo_to_dt demo_wide demo_today ''2024-01-03'' = Inr out
         \<and> map_of (cols (table out)) ''2024-01-03'' = Some new
         \<and> new ! 1 = Some ''2|0.50|20''"
    using inst [where out = "projr (patch_today_ind demo_float_str demo_to_dt demo_wide
        demo_today ''2024-01-03'')"]
    by (simp add: demo_patch_ind ix l1 comb_def nonempty_cell_def)
  have b: "\<exists>out new. patch_today_fetch demo_to_dt demo_wide demo_today ''2024-01-03'' = Inr out
         \<and> map_of (cols (table out)) ''2024-01-03'' = Some new
         \<and> new ! 1 = Some ''2|0.50|20''"
    using inst [where out = "projr (patch_today_fetch demo_to_dt demo_wide demo_today
        ''2024-01-03'')"]
    by (simp add: demo_patch_fetch ix l2 comb_def nonempty_cell_def)
  from wf_demo_wide distinct_demo_today old l1 a b show ?thesis by blast
qed

text \<open>
  Claim C2: \<open>patch_today\<close> changes no cell outside the today column for a board the
  table already has. Whenever \<open>patch_today\<close> of either file writes a table, the rows of
  the old table are the first rows of the new one and every column other than the today
  column keeps its cells in these rows (\<open>preserves_past\<close>); the order of the columns may
  change.
\<close>

theorem patch_today_frame:
  assumes wf: "wf_frame W"
  shows "(patch_today_ind fs to_dt W D c = Inr out \<longrightarrow> preserves_past W c (table out))
       \<and> (patch_today_fetch to_dt W D c = Inr out \<longrightarrow> preserves_past W c (table out))"
  using wf patch_today_ind_preserves_past patch_today_fetch_preserves_past by blast

theorem patch_today_frame_witness:
  "wf_frame demo_wide
   \<and> preserves_past demo_wide ''2024-01-03''
       \<lparr>index = [''BK1|A'', ''BK2|B'', ''BK3|C''],
        cols = [(''2024-01-02'', [Some ''2|0.10|9'', None, None]),
                (''2024-01-03'', [Some ''1|2.00|11||||'', Some ''2|0.50|20'',
                                  Some ''2|1.00|5||||'']),
                (''note'', [None, Some ''x'', None])]\<rparr>
   \<and> preserves_past demo_wide ''2024-01-03''
       \<lparr>index = [''BK1|A'', ''BK2|B''],
        cols = [(''2024-01-02'', [Some ''2|0.10|9'', None]),
                (''2024-01-03'', [Some ''1|2.00|11'', Some ''2|0.50|20'']),
                (''note'', [None, Some ''x''])]\<rparr>"
  using patch_today_frame [OF wf_demo_wide, where fs = demo_float_str and to_dt = demo_to_dt
      and D = demo_today and c = "''2024-01-03''"
      and out = "projr (patch_today_ind demo_float_str demo_to_dt demo_wide demo_today
                   ''2024-01-03'')"]
    patch_today_frame [OF wf_demo_wide, where fs = demo_float_str and to_dt = demo_to_dt
      and D = demo_today and c = "''2024-01-03''"
      and out = "projr (patch_today_fetch demo_to_dt demo_wide demo_today ''2024-01-03'')"]
    wf_demo_wide
  by (simp add: demo_patch_ind demo_patch_fetch)

text \<open>
  Claim C8, on \<open>patch_today\<close> of \<open>bk_fetch_data.py\<close>: the table \<open>demo_wide\<close>
  has no column \<open>2024-01-01\<close> and the snapshot \<open>demo_partial\<close> omits the board
  \<open>BK2|B\<close> of the table. The first call writes the table with the new column; the
  second call, on the table just written with the same snapshot and column, raises
  \<open>IndexingError\<close> and writes nothing.
\<close>

theorem patch_today_fetch_second_call_raises:
  "patch_today_fetch demo_to_dt demo_wide demo_partial ''2024-01-01'' =
       Inr \<lparr>encoding = ''utf-8-sig'', index_label = ''row_key'',
            table = \<lparr>index = [''BK1|A'', ''BK2|B''],
                      cols = [(''2024-01-01'', [Some ''1|2.00|11'', None]),
                              (''2024-01-02'', [Some ''2|0.10|9'', None]),
                              (''2024-01-03'', [Some ''1|1.00|10'', Some ''2|0.50|20'']),
                              (''note'', [None, Some ''x''])]\<rparr>\<rparr>
   \<and> patch_today_fetch demo_to_dt
         \<lparr>index = [''BK1|A'', ''BK2|B''],
          cols = [(''2024-01-01'', [Some ''1|2.00|11'', None]),
                  (''2024-01-02'', [Some ''2|0.10|9'', None]),
                  (''2024-01-03'', [Some ''1|1.00|10'', Some ''2|0.50|20'']),
                  (''note'', [None, Some ''x''])]\<rparr>
         demo_partial ''2024-01-01'' = Inl IndexingError"
  by (simp add: demo_partial_first_call demo_partial_second_call)

text \<open>
  Where the second call of \<open>patch_today\<close> of \<open>bk_fetch_data.py\<close> does write, it
  writes the file of the first call again (\<open>patch_today_fetch_idem\<close>); and
  \<open>patch_today\<close> of \<open>bk_data_ind.py\<close>, on a table whose row keys are distinct,
  writes the same file again (\<open>patch_today_ind_idem\<close>).
\<close>

text \<open>
  Claim C4, on \<open>patch_today\<close> of \<open>bk_fetch_data.py\<close>: the snapshot \<open>demo_today\<close>
  holds the board \<open>BK3|C\<close>, which the table lacks, and the table written has no row
  for it; and when the snapshot omits the board \<open>BK2|B\<close> of the table, whose today
  column exists, the call raises \<open>IndexingError\<close> and writes nothing.
\<close>

theorem patch_today_fetch_misses_new_board:
  "''BK3|C'' \<in> set (map row_key demo_today) \<and> ''BK3|C'' \<notin> set (index demo_wide)
   \<and> patch_today_fetch demo_to_dt demo_wide demo_today ''2024-01-03'' =
       Inr \<lparr>encoding = ''utf-8-sig'', index_label = ''row_key'',
            table = \<lparr>index = [''BK1|A'', ''BK2|B''],
                      cols = [(''2024-01-02'', [Some ''2|0.10|9'', None]),
                              (''2024-01-03'', [Some ''1|2.00|11'', Some ''2|0.50|20'']),
                              (''note'', [None, Some ''x''])]\<rparr>\<rparr>
   \<and> patch_today_fetch demo_to_dt demo_wide demo_partial ''2024-01-03'' = Inl IndexingError"
  by (simp add: demo_patch_fetch demo_partial_raises)
     (simp add: demo_today_def demo_wide_def board_def row_key_def)

text \<open>
  \<open>patch_today\<close> of \<open>bk_data_ind.py\<close> does what claim C4 says: on the same inputs
  it appends the row of \<open>BK3|C\<close>, empty outside the today column, and keeps the row of
  the omitted board.
\<close>

lemma patch_today_ind_appends_demo:
  "patch_today_ind demo_float_str demo_to_dt demo_wide demo_today ''2024-01-03'' =
   Inr \<lparr>encoding = ''utf-8-sig'', index_label = ''row_key'',
        table = \<lparr>index = [''BK1|A'', ''BK2|B'', ''BK3|C''],
                  cols = [(''2024-01-02'', [Some ''2|0.10|9'', None, None]),
                          (''2024-01-03'', [Some ''1|2.00|11||||'', Some ''2|0.50|20'',
                                            Some ''2|1.00|5||||'']),
                          (''note'', [None, Some ''x'', None])]\<rparr>\<rparr>"
  by (rule demo_patch_ind)

section \<open>Properties of the ranking\<close>

lemma pct_lt_desc_key:
  "notna a \<Longrightarrow> notna b \<Longrightarrow> pct_lt b a \<longleftrightarrow> desc_key a < desc_key b"
  by (cases a; cases b; (cases "the a"; cases "the b")?)
     (auto simp: notna_def none_or_nan_def)

lemma position_less: "x \<in> set ys \<Longrightarrow> position x ys < length ys"
  by (induction ys) auto

lemma nth_position: "x \<in> set ys \<Longrightarrow> ys ! position x ys = x"
  by (induction ys) auto

lemma position_nth: "distinct ys \<Longrightarrow> p < length ys \<Longrightarrow> position (ys ! p) ys = p"
proof (induction ys arbitrary: p)
  case Nil
  then show ?case by simp
next
  case (Cons y ys)
  then show ?case by (cases p) auto
qed

lemma position_inj:
  "x \<in> set ys \<Longrightarrow> y \<in> set ys \<Longrightarrow> position x ys = position y ys \<Longrightarrow> x = y"
  by (metis nth_position)

lemma set_rank_order: "set (rank_order xs) = {i. i < length xs \<and> notna (xs ! i)}"
  by (auto simp: rank_order_def)

lemma distinct_rank_order: "distinct (rank_order xs)"
  by (simp add: rank_order_def)

lemma length_rank_order:
  "length (rank_order xs) = length (filter (\<lambda>i. notna (xs ! i)) [0..<length xs])"
  by (simp add: rank_order_def)

lemma sorted_rank_order: "sorted (map (\<lambda>i. desc_key (xs ! i)) (rank_order xs))"
  by (simp add: rank_order_def)

lemma rank_first_desc_nth:
  "i < length xs \<Longrightarrow>
   rank_first_desc xs ! i =
     (if notna (xs ! i) then Some (Suc (position i (rank_order xs))) else None)"
  by (simp add: rank_first_desc_def)

lemma rank_order_mono:
  assumes i: "i \<in> set (rank_order xs)" and j: "j \<in> set (rank_order xs)"
    and lt: "desc_key (xs ! i) < desc_key (xs ! j)"
  shows "position i (rank_order xs) < position j (rank_order xs)"
proof (rule ccontr)
  let ?o = "rank_order xs"
  assume "\<not> position i ?o < position j ?o"
  then have le: "position j ?o \<le> position i ?o" by simp
  have pi: "position i ?o < length ?o" using i by (rule position_less)
  from sorted_rank_order [of xs] le pi
  have "map (\<lambda>i. desc_key (xs ! i)) ?o ! position j ?o
        \<le> map (\<lambda>i. desc_key (xs ! i)) ?o ! position i ?o"
    by (intro sorted_nth_mono) simp_all
  then have "desc_key (xs ! j) \<le> desc_key (xs ! i)"
    using pi le i j by (simp add: nth_position)
  with lt show False by simp
qed

lemma filter_keeps_order:
  "x \<in> set ys \<Longrightarrow> y \<in> set ys \<Longrightarrow> position x ys < position y ys \<Longrightarrow>
   Q x \<Longrightarrow> Q y \<Longrightarrow> sorted_wrt R (filter Q ys) \<Longrightarrow> R x y"
proof (induction ys)
  case Nil
  then show ?case by simp
next
  case (Cons z zs)
  show ?case
  proof (cases "z = x")
    case True
    with Cons.prems have "y \<noteq> x" by auto
    with Cons.prems True have "y \<in> set (filter Q zs)" by auto
    with Cons.prems True show ?thesis by auto
  next
    case False
    with Cons.prems have "z \<noteq> y" by auto
    with False Cons show ?thesis by (auto split: if_splits)
  qed
qed

lemma rank_order_stable:
  assumes i: "i \<in> set (rank_order xs)" and j: "j \<in> set (rank_order xs)"
    and eq: "desc_key (xs ! i) = desc_key (xs ! j)" and lt: "i < j"
  shows "position i (rank_order xs) < position j (rank_order xs)"
proof (rule ccontr)
  let ?o = "rank_order xs"
  let ?Q = "\<lambda>y. desc_key (xs ! y) = desc_key (xs ! j)"
  assume "\<not> position i ?o < position j ?o"
  moreover have "position i ?o \<noteq> position j ?o"
    using position_inj [OF i j] lt by auto
  ultimately have p: "position j ?o < position i ?o" by simp
  have "filter ?Q ?o = filter ?Q (filter (\<lambda>i. notna (xs ! i)) [0..<length xs])"
    unfolding rank_order_def by (rule sort_key_stable)
  moreover have "sorted_wrt (<) (filter ?Q (filter (\<lambda>i. notna (xs ! i)) [0..<length xs]))"
    by (intro sorted_wrt_filter) simp
  ultimately have "sorted_wrt (<) (filter ?Q ?o)" by simp
  from filter_keeps_order [OF j i p _ _ this] eq have "j < i" by simp
  with lt show False by simp
qed

lemma rank_first_desc_range:
  assumes "i < length xs" "notna (xs ! i)"
  shows "\<exists>r. rank_first_desc xs ! i = Some r \<and> 1 \<le> r \<and> r \<le> length (rank_order xs)"
proof -
  have "i \<in> set (rank_order xs)" using assms by (simp add: set_rank_order)
  then have "position i (rank_order xs) < length (rank_order xs)" by (rule position_less)
  with assms show ?thesis by (simp add: rank_first_desc_nth)
qed

lemma rank_first_desc_inj:
  assumes "i < length xs" "j < length xs" "notna (xs ! i)" "notna (xs ! j)"
    and "rank_first_desc xs ! i = rank_first_desc xs ! j"
  shows "i = j"
proof -
  have "i \<in> set (rank_order xs)" "j \<in> set (rank_order xs)"
    using assms by (simp_all add: set_rank_order)
  moreover have "position i (rank_order xs) = position j (rank_order xs)"
    using assms by (simp add: rank_first_desc_nth)
  ultimately show ?thesis by (rule position_inj)
qed

lemma rank_first_desc_surj:
  assumes "1 \<le> r" "r \<le> length (rank_order xs)"
  shows "\<exists>i<length xs. notna (xs ! i) \<and> rank_first_desc xs ! i = Some r"
proof -
  let ?i = "rank_order xs ! (r - 1)"
  have r: "r - 1 < length (rank_order xs)" using assms by simp
  then have "?i \<in> set (rank_order xs)" by simp
  then have i: "?i < length xs" "notna (xs ! ?i)" by (simp_all add: set_rank_order)
  have "position ?i (rank_order xs) = r - 1"
    using distinct_rank_order r by (rule position_nth)
  with i assms show ?thesis by (auto simp: rank_first_desc_nth)
qed

lemma rank_first_desc_mono:
  assumes "i < length xs" "j < length xs" and lt: "pct_lt (xs ! j) (xs ! i)"
  shows "\<exists>r s. rank_first_desc xs ! i = Some r \<and> rank_first_desc xs ! j = Some s \<and> r < s"
proof -
  from lt have na: "notna (xs ! i)" "notna (xs ! j)"
    by (cases "xs ! j"; cases "xs ! i"; cases "the (xs ! j)"; cases "the (xs ! i)";
        simp add: notna_def none_or_nan_def)+
  then have "i \<in> set (rank_order xs)" "j \<in> set (rank_order xs)"
    using assms by (simp_all add: set_rank_order)
  moreover have "desc_key (xs ! i) < desc_key (xs ! j)"
    using lt na by (simp add: pct_lt_desc_key)
  ultimately have "position i (rank_order xs) < position j (rank_order xs)"
    by (rule rank_order_mono)
  with assms na show ?thesis by (simp add: rank_first_desc_nth)
qed

lemma rank_first_desc_ties:
  assumes "i < j" "j < length xs" "notna (xs ! i)" "notna (xs ! j)"
    and eq: "desc_key (xs ! i) = desc_key (xs ! j)"
  shows "\<exists>r s. rank_first_desc xs ! i = Some r \<and> rank_first_desc xs ! j = Some s \<and> r < s"
proof -
  have "i \<in> set (rank_order xs)" "j \<in> set (rank_order xs)"
    using assms by (simp_all add: set_rank_order)
  from rank_order_stable [OF this eq \<open>i < j\<close>] assms show ?thesis
    by (simp add: rank_first_desc_nth)
qed

section \<open>Properties of the ranking within a trade date\<close>

lemma set_group_of: "set (group_of keys i) = {j. j < length keys \<and> keys ! j = keys ! i}"
  by (auto simp: group_of_def)

lemma distinct_group_of: "distinct (group_of keys i)"
  by (simp add: group_of_def)

lemma group_of_same: "keys ! j = keys ! i \<Longrightarrow> group_of keys j = group_of keys i"
  by (simp add: group_of_def)

lemma group_rank_nth:
  "i < length keys \<Longrightarrow>
   group_rank keys xs ! i =
     rank_first_desc (map (\<lambda>j. xs ! j) (group_of keys i)) ! position i (group_of keys i)"
  by (simp add: group_rank_def)

lemma peers_eq: "peers keys xs i = filter (\<lambda>j. notna (xs ! j)) (group_of keys i)"
  by (simp add: peers_def group_of_def conj_commute)

lemma length_filter_nth:
  "length (filter (\<lambda>p. Q (xs ! p)) [0..<length xs]) = length (filter Q xs)"
proof -
  have "length (map (\<lambda>p. xs ! p) (filter (\<lambda>p. Q (xs ! p)) [0..<length xs]))
      = length (map (\<lambda>x. x) (filter Q xs))"
    by (rule arg_cong [where f = length, OF nth_filter_map [of "\<lambda>x. x" xs Q]])
  then show ?thesis by simp
qed

lemma length_rank_order_map:
  "length (rank_order (map f grp)) = length (filter (\<lambda>j. notna (f j)) grp)"
proof -
  have "filter (\<lambda>p. notna (map f grp ! p)) [0..<length (map f grp)]
      = filter (\<lambda>p. notna (f (grp ! p))) [0..<length grp]"
    by (auto intro!: filter_cong)
  then show ?thesis
    by (simp only: length_rank_order length_filter_nth [of "\<lambda>j. notna (f j)" grp])
qed

lemma group_member:
  assumes "j < length keys" "keys ! j = keys ! i"
  shows "j \<in> set (group_of keys i)"
    and "position j (group_of keys i) < length (group_of keys i)"
    and "map (\<lambda>j. xs ! j) (group_of keys i) ! position j (group_of keys i) = xs ! j"
    and "group_rank keys xs ! j =
           rank_first_desc (map (\<lambda>j. xs ! j) (group_of keys i)) ! position j (group_of keys i)"
proof -
  show m: "j \<in> set (group_of keys i)" using assms by (simp add: set_group_of)
  then show p: "position j (group_of keys i) < length (group_of keys i)"
    by (rule position_less)
  show "map (\<lambda>j. xs ! j) (group_of keys i) ! position j (group_of keys i) = xs ! j"
    using p m by (simp add: nth_position)
  show "group_rank keys xs ! j =
           rank_first_desc (map (\<lambda>j. xs ! j) (group_of keys i)) ! position j (group_of keys i)"
    using assms(1) by (simp add: group_rank_nth group_of_same [OF assms(2)])
qed

lemma group_rank_missing:
  assumes "i < length keys" "\<not> notna (xs ! i)"
  shows "group_rank keys xs ! i = None"
proof -
  note g = group_member(1) [OF assms(1) refl] group_member(2) [OF assms(1) refl]
    group_member(3) [OF assms(1) refl, where xs = xs] group_member(4) [OF assms(1) refl, where xs = xs]
  from g(2) g(3) assms(2) show ?thesis
    by (simp add: g(4) rank_first_desc_nth)
qed

lemma group_rank_range:
  assumes "j \<in> set (peers keys xs i)"
  shows "\<exists>r. group_rank keys xs ! j = Some r \<and> 1 \<le> r \<and> r \<le> length (peers keys xs i)"
proof -
  from assms have j: "j < length keys" "keys ! j = keys ! i" "notna (xs ! j)"
    by (auto simp: peers_def)
  note g = group_member(1) [OF j(1) j(2)] group_member(2) [OF j(1) j(2)]
    group_member(3) [OF j(1) j(2), where xs = xs] group_member(4) [OF j(1) j(2), where xs = xs]
  let ?ys = "map (\<lambda>j. xs ! j) (group_of keys i)"
  have "position j (group_of keys i) < length ?ys" using g(2) by simp
  moreover have "notna (?ys ! position j (group_of keys i))" using g(3) j(3) by simp
  ultimately have "\<exists>r. rank_first_desc ?ys ! position j (group_of keys i) = Some r
      \<and> 1 \<le> r \<and> r \<le> length (rank_order ?ys)"
    by (rule rank_first_desc_range)
  then show ?thesis
    by (simp add: g(4) length_rank_order_map peers_eq)
qed

lemma group_rank_inj:
  assumes "j \<in> set (peers keys xs i)" "k \<in> set (peers keys xs i)"
    and "group_rank keys xs ! j = group_rank keys xs ! k"
  shows "j = k"
proof -
  from assms have j: "j < length keys" "keys ! j = keys ! i" "notna (xs ! j)"
    and k: "k < length keys" "keys ! k = keys ! i" "notna (xs ! k)"
    by (auto simp: peers_def)
  note gj = group_member(1) [OF j(1) j(2)] group_member(2) [OF j(1) j(2)]
    group_member(3) [OF j(1) j(2), where xs = xs] group_member(4) [OF j(1) j(2), where xs = xs]
  note gk = group_member(1) [OF k(1) k(2)] group_member(2) [OF k(1) k(2)]
    group_member(3) [OF k(1) k(2), where xs = xs] group_member(4) [OF k(1) k(2), where xs = xs]
  let ?ys = "map (\<lambda>j. xs ! j) (group_of keys i)"
  have "position j (group_of keys i) = position k (group_of keys i)"
  proof (rule rank_first_desc_inj [of _ ?ys])
    show "position j (group_of keys i) < length ?ys" using gj(2) by simp
    show "position k (group_of keys i) < length ?ys" using gk(2) by simp
    show "notna (?ys ! position j (group_of keys i))" using gj(3) j(3) by simp
    show "notna (?ys ! position k (group_of keys i))" using gk(3) k(3) by simp
    show "rank_first_desc ?ys ! position j (group_of keys i)
        = rank_first_desc ?ys ! position k (group_of keys i)"
      using assms(3) by (simp add: gj(4) gk(4))
  qed
  with gj(1) gk(1) show ?thesis by (intro position_inj [of j "group_of keys i" k])
qed

lemma group_rank_surj:
  assumes "1 \<le> r" "r \<le> length (peers keys xs i)"
  shows "\<exists>j \<in> set (peers keys xs i). group_rank keys xs ! j = Some r"
proof -
  let ?grp = "group_of keys i"
  let ?ys = "map (\<lambda>j. xs ! j) ?grp"
  from assms have "r \<le> length (rank_order ?ys)"
    by (simp add: length_rank_order_map peers_eq)
  from rank_first_desc_surj [OF assms(1) this] obtain q where
    q: "q < length ?grp" "notna (?ys ! q)" "rank_first_desc ?ys ! q = Some r"
    by auto
  let ?j = "?grp ! q"
  have m: "?j \<in> set ?grp" using q(1) by simp
  then have j: "?j < length keys" "keys ! ?j = keys ! i" by (simp_all add: set_group_of)
  have "position ?j ?grp = q" using distinct_group_of q(1) by (rule position_nth)
  with q have "group_rank keys xs ! ?j = Some r"
    by (simp add: group_member(4) [OF j, where xs = xs])
  moreover have "?j \<in> set (peers keys xs i)"
    using m q by (simp add: peers_eq)
  ultimately show ?thesis by blast
qed

lemma group_rank_mono:
  assumes i: "i < length keys" and j: "j < length keys" "keys ! j = keys ! i"
    and lt: "pct_lt (xs ! j) (xs ! i)"
  shows "\<exists>r s. group_rank keys xs ! i = Some r \<and> group_rank keys xs ! j = Some s \<and> r < s"
proof -
  note gi = group_member(1) [OF i refl] group_member(2) [OF i refl]
    group_member(3) [OF i refl, where xs = xs] group_member(4) [OF i refl, where xs = xs]
  note gj = group_member(1) [OF j] group_member(2) [OF j]
    group_member(3) [OF j, where xs = xs] group_member(4) [OF j, where xs = xs]
  let ?ys = "map (\<lambda>j. xs ! j) (group_of keys i)"
  have "\<exists>r s. rank_first_desc ?ys ! position i (group_of keys i) = Some r
      \<and> rank_first_desc ?ys ! position j (group_of keys i) = Some s \<and> r < s"
  proof (rule rank_first_desc_mono)
    show "position i (group_of keys i) < length ?ys" using gi(2) by simp
    show "position j (group_of keys i) < length ?ys" using gj(2) by simp
    show "pct_lt (?ys ! position j (group_of keys i)) (?ys ! position i (group_of keys i))"
      using lt by (simp only: gi(3) gj(3))
  qed
  then show ?thesis by (simp add: gi(4) gj(4))
qed

lemma upt_4: "[0..<4] = [0, 1, 2, 3]"
  by (simp add: upt_rec [of _ "numeral _"] upt_rec [of _ "Suc _"] eval_nat_numeral)

lemma demo_peers: "peers demo_dates demo_pcts 0 = [0, 1]"
  by (simp add: peers_def demo_dates_def demo_pcts_def upt_4 notna_def none_or_nan_def)

lemma demo_group_of:
  "group_of demo_dates 0 = [0, 1, 3]" "group_of demo_dates (Suc 0) = [0, 1, 3]"
  "group_of demo_dates 2 = [2]" "group_of demo_dates 3 = [0, 1, 3]"
  by (simp_all add: group_of_def demo_dates_def upt_4)

lemma demo_rank_a:
  "rank_first_desc [Some (Fin 1), Some (Fin 3), Some NaN] = [Some 2, Some 1, None]"
  by (simp add: rank_first_desc_def rank_order_def notna_def none_or_nan_def upt_3)

lemma demo_rank_b: "rank_first_desc [Some (Fin 2)] = [Some 1]"
  by (simp add: rank_first_desc_def rank_order_def notna_def none_or_nan_def)

lemma demo_group_rank:
  "group_rank demo_dates demo_pcts = [Some 2, Some 1, Some 1, None]"
proof -
  have "length demo_dates = 4" by (simp add: demo_dates_def)
  then have "group_rank demo_dates demo_pcts =
      map (\<lambda>i. rank_first_desc (map (\<lambda>j. demo_pcts ! j) (group_of demo_dates i))
                 ! position i (group_of demo_dates i)) [0, 1, 2, 3]"
    by (simp only: group_rank_def upt_4)
  also have "\<dots> = [Some 2, Some 1, Some 1, None]"
    by (simp add: demo_group_of) (simp add: demo_pcts_def demo_rank_a demo_rank_b)
  finally show ?thesis .
qed

text \<open>
  Claim C10: after \<open>groupby("trade_date")["pct_chg"].rank(ascending=False,
  method="first")\<close>, as \<open>write_baseline\<close> and the long-format assembler call it, a
  row without \<open>pct_chg\<close> has no rank; the ranks of the rows of one trade date whose
  \<open>pct_chg\<close> is present are pairwise different and are exactly the integers from 1 to
  their number; and of two rows of one date the one with the strictly greater \<open>pct_chg\<close>
  has the strictly smaller rank.
\<close>

theorem group_rank_dense_and_ordered:
  assumes i: "i < length keys"
  shows "(\<not> notna (xs ! i) \<longrightarrow> group_rank keys xs ! i = None)
       \<and> distinct (map (\<lambda>j. group_rank keys xs ! j) (peers keys xs i))
       \<and> set (map (\<lambda>j. group_rank keys xs ! j) (peers keys xs i))
           = Some ` {1..length (peers keys xs i)}
       \<and> (\<forall>j<length keys. keys ! j = keys ! i \<and> pct_lt (xs ! j) (xs ! i) \<longrightarrow>
             (\<exists>r s. group_rank keys xs ! i = Some r \<and> group_rank keys xs ! j = Some s
                \<and> r < s))"
proof (intro conjI impI allI)
  assume "\<not> notna (xs ! i)"
  with i show "group_rank keys xs ! i = None" by (rule group_rank_missing)
next
  have "inj_on (\<lambda>j. group_rank keys xs ! j) (set (peers keys xs i))"
    by (rule inj_onI) (rule group_rank_inj)
  moreover have "distinct (peers keys xs i)" by (simp add: peers_def)
  ultimately show "distinct (map (\<lambda>j. group_rank keys xs ! j) (peers keys xs i))"
    by (simp add: distinct_map)
next
  show "set (map (\<lambda>j. group_rank keys xs ! j) (peers keys xs i))
          = Some ` {1..length (peers keys xs i)}"
  proof (intro set_eqI iffI)
    fix v assume "v \<in> set (map (\<lambda>j. group_rank keys xs ! j) (peers keys xs i))"
    then obtain j where "j \<in> set (peers keys xs i)" "v = group_rank keys xs ! j" by auto
    with group_rank_range [of j keys xs i] show "v \<in> Some ` {1..length (peers keys xs i)}"
      by auto
  next
    fix v assume "v \<in> Some ` {1..length (peers keys xs i)}"
    then obtain r where "v = Some r" "1 \<le> r" "r \<le> length (peers keys xs i)" by auto
    with group_rank_surj [of r keys xs i]
    obtain j where "j \<in> set (peers keys xs i)" "group_rank keys xs ! j = v" by auto
    then show "v \<in> set (map (\<lambda>j. group_rank keys xs ! j) (peers keys xs i))"
      by (auto simp: image_iff intro!: bexI [of _ j])
  qed
next
  fix j assume "j < length keys" "keys ! j = keys ! i \<and> pct_lt (xs ! j) (xs ! i)"
  with i show "\<exists>r s. group_rank keys xs ! i = Some r \<and> group_rank keys xs ! j = Some s
                \<and> r < s"
    by (intro group_rank_mono) simp_all
qed

theorem group_rank_dense_and_ordered_witness:
  "0 < length demo_dates
   \<and> group_rank demo_dates demo_pcts = [Some 2, Some 1, Some 1, None]
   \<and> peers demo_dates demo_pcts 0 = [0, 1]
   \<and> set (map (\<lambda>j. group_rank demo_dates demo_pcts ! j) (peers demo_dates demo_pcts 0))
       = Some ` {1..length (peers demo_dates demo_pcts 0)}
   \<and> pct_lt (demo_pcts ! 0) (demo_pcts ! 1)"
proof -
  have h: "0 < length demo_dates" by (simp add: demo_dates_def)
  from group_rank_dense_and_ordered [OF h, of demo_pcts]
  have "set (map (\<lambda>j. group_rank demo_dates demo_pcts ! j) (peers demo_dates demo_pcts 0))
       = Some ` {1..length (peers demo_dates demo_pcts 0)}"
    by blast
  moreover have "pct_lt (demo_pcts ! 0) (demo_pcts ! 1)" by (simp add: demo_pcts_def)
  ultimately show ?thesis using h demo_peers demo_group_rank by simp
qed

section \<open>Properties of parse_triplet\<close>

lemma parse_parts_short:
  "length parts < 3 \<Longrightarrow> \<exists>e. parse_parts pf rd parts = Inl e"
  by (auto simp: parse_parts_def item_def split: sum.splits)

lemma parse_parts_unparsable:
  "pf (parts ! 0) = None \<or> pf (parts ! 1) = None \<or> pf (parts ! 2) = None
     \<Longrightarrow> \<exists>e. parse_parts pf rd parts = Inl e"
  by (auto simp: parse_parts_def item_def float_of_def split: sum.splits option.splits)

lemma rank_of_inf: "rank_of PInf = Inl OverflowError"
  by (simp add: rank_of_def int_of_def)

lemma parse_parts_inf:
  "pf (parts ! 0) = Some PInf \<Longrightarrow> \<exists>e. parse_parts pf rd parts = Inl e"
  by (auto simp: parse_parts_def item_def float_of_def rank_of_inf split: sum.splits option.splits)

lemma rank_of_value:
  "a \<noteq> PInf \<Longrightarrow>
   rank_of a = Inr (case a of
                      Fin q \<Rightarrow> if 0 < q \<and> q - of_int \<lfloor>q\<rfloor> < double_1e_9 then PInt \<lfloor>q\<rfloor>
                               else PFloat NaN
                    | _ \<Rightarrow> PFloat NaN)"
proof (cases a)
  case (Fin q)
  have "0 \<le> q - of_int \<lfloor>q\<rfloor>" by simp
  then have "\<bar>q - of_int \<lfloor>q\<rfloor>\<bar> = q - of_int \<lfloor>q\<rfloor>" by (rule abs_of_nonneg)
  then show ?thesis using Fin by (simp add: rank_of_def int_of_def near_int_def)
qed (simp_all add: rank_of_def int_of_def near_int_def)

lemma parse_parts_valid:
  assumes "3 \<le> length parts" "pf (parts ! 0) = Some a" "pf (parts ! 1) = Some b"
    "pf (parts ! 2) = Some c" "a \<noteq> PInf"
  shows "parse_parts pf rd parts =
     Inr (case a of
            Fin q \<Rightarrow> if 0 < q \<and> q - of_int \<lfloor>q\<rfloor> < double_1e_9 then PInt \<lfloor>q\<rfloor>
                     else PFloat NaN
          | _ \<Rightarrow> PFloat NaN, truediv_100 rd b, c)"
proof -
  from assms(1) have "parts \<noteq> []" "Suc 0 < length parts" "2 < length parts" by auto
  with assms(2-5) show ?thesis
    by (simp add: parse_parts_def item_def float_of_def rank_of_value)
qed

text \<open>
  Claim C9: \<open>parse_triplet\<close> never raises: on every cell it returns a triple. It
  returns the triple of NaN when the cell is missing, has fewer than three fields
  between \<open>|\<close>, or one of its first three fields is not read by \<open>float\<close>, and
  also when the rank field reads as \<open>inf\<close> (\<open>int\<close> of it raises
  \<open>OverflowError\<close>). On every other cell it returns the rank, the change divided by
  100 and the value, fields after the third being ignored; the rank is the integer part
  of the rank field when that is positive and less than \<open>1e-9\<close> above its integer
  part, so for every positive integral rank field, and NaN otherwise.
\<close>

theorem parse_triplet_total:
  "(\<exists>t. parse_triplet fs pf rd cell = Inr t)
   \<and> (let parts = str_split CHR ''|'' (py_str fs cell) in
        (isna cell \<or> length parts < 3 \<or> pf (parts ! 0) = None \<or> pf (parts ! 1) = None
           \<or> pf (parts ! 2) = None \<or> pf (parts ! 0) = Some PInf
           \<longrightarrow> parse_triplet fs pf rd cell = Inr nan_triplet)
      \<and> (\<forall>a b c. \<not> isna cell \<and> 3 \<le> length parts \<and> pf (parts ! 0) = Some a
            \<and> pf (parts ! 1) = Some b \<and> pf (parts ! 2) = Some c \<and> a \<noteq> PInf
           \<longrightarrow> parse_triplet fs pf rd cell =
                 Inr (case a of
                        Fin q \<Rightarrow> if 0 < q \<and> q - of_int \<lfloor>q\<rfloor> < double_1e_9
                                 then PInt \<lfloor>q\<rfloor> else PFloat NaN
                      | _ \<Rightarrow> PFloat NaN,
                      truediv_100 rd b, c)))"
proof -
  let ?parts = "str_split CHR ''|'' (py_str fs cell)"
  have total: "\<exists>t. parse_triplet fs pf rd cell = Inr t"
    by (rule exI [of _ "if isna cell then nan_triplet
          else (case parse_parts pf rd ?parts of Inl e \<Rightarrow> nan_triplet | Inr t \<Rightarrow> t)"])
       (simp add: parse_triplet_def split: sum.splits)
  have bad: "parse_triplet fs pf rd cell = Inr nan_triplet"
    if "isna cell \<or> length ?parts < 3 \<or> pf (?parts ! 0) = None \<or> pf (?parts ! 1) = None
           \<or> pf (?parts ! 2) = None \<or> pf (?parts ! 0) = Some PInf"
  proof (cases "isna cell")
    case True
    then show ?thesis by (simp add: parse_triplet_def)
  next
    case False
    with that have "\<exists>e. parse_parts pf rd ?parts = Inl e"
      using parse_parts_short [of ?parts pf rd] parse_parts_unparsable [of pf ?parts rd]
        parse_parts_inf [of pf ?parts rd] by blast
    then show ?thesis by (auto simp: parse_triplet_def)
  qed
  have good: "parse_triplet fs pf rd cell =
                 Inr (case a of
                        Fin q \<Rightarrow> if 0 < q \<and> q - of_int \<lfloor>q\<rfloor> < double_1e_9
                                 then PInt \<lfloor>q\<rfloor> else PFloat NaN
                      | _ \<Rightarrow> PFloat NaN,
                      truediv_100 rd b, c)"
    if "\<not> isna cell \<and> 3 \<le> length ?parts \<and> pf (?parts ! 0) = Some a
            \<and> pf (?parts ! 1) = Some b \<and> pf (?parts ! 2) = Some c \<and> a \<noteq> PInf" for a b c
    using that by (simp add: parse_triplet_def parse_parts_valid)
  from total bad good show ?thesis unfolding Let_def by blast
qed

lemma floor_five_halves: "\<lfloor>5 / 2 :: rat\<rfloor> = 2"
  by (rule floor_unique) simp_all

lemma demo_split_a: "str_split CHR ''|'' ''2|1.00|10'' = [''2'', ''1.00'', ''10'']"
  by simp

lemma demo_split_b: "str_split CHR ''|'' ''||5'' = [[], [], ''5'']"
  by simp

lemma demo_split_c: "str_split CHR ''|'' ''2.5|nan|inf||||'' = [''2.5'', ''nan'', ''inf'', [], [], [], []]"
  by simp

theorem parse_triplet_total_witness:
  "parse_triplet demo_float_str demo_py_float Fin (PStr ''2|1.00|10'')
     = Inr (PInt 2, Fin (1 / 100), Fin 10)
   \<and> parse_triplet demo_float_str demo_py_float Fin (PStr ''2.5|nan|inf||||'')
     = Inr (PFloat NaN, NaN, PInf)
   \<and> parse_triplet demo_float_str demo_py_float Fin (PStr ''||5'') = Inr nan_triplet
   \<and> parse_triplet demo_float_str demo_py_float Fin (PFloat NaN) = Inr nan_triplet"
  using parse_triplet_total [of demo_float_str demo_py_float Fin "PStr ''2|1.00|10''"]
    parse_triplet_total [of demo_float_str demo_py_float Fin "PStr ''2.5|nan|inf||||''"]
    parse_triplet_total [of demo_float_str demo_py_float Fin "PStr ''||5''"]
    parse_triplet_total [of demo_float_str demo_py_float Fin "PFloat NaN"]
  by (simp add: demo_split_a demo_split_b demo_split_c demo_py_float_def isna_def
      truediv_100_def double_1e_9_def floor_five_halves)

end
